theory Spec2Isabelle
  imports Main "HOL-Library.Sublist"
begin

section \<open>The flowgrind command line argument parser (\<^verbatim>\<open>fg_argparser.c\<close>)\<close>

text \<open>
  A shallow embedding of \<^verbatim>\<open>src/fg_argparser.c\<close>.

  \<^item> A C string is the list of its characters before the terminating NUL; reading the
    character at the position of the terminator gives NUL (\<open>cnth\<close>). A list holding a NUL
    denotes no C string.
  \<^item> A nullable pointer is an \<open>option\<close>.
  \<^item> \<^verbatim>\<open>malloc\<close>/\<^verbatim>\<open>realloc\<close> may fail. An \<open>allocator\<close> gives the outcomes of the allocation
    requests still to come; every function that allocates takes one and returns the rest.
  \<^item> A function that mutates \<^verbatim>\<open>*ap\<close> or \<^verbatim>\<open>*argindp\<close> returns the new values next to its C
    result; the C result \<^verbatim>\<open>char\<close> 1/0 is a \<open>bool\<close>.
\<close>

subsection \<open>Data model\<close>

text \<open>
  Modelled from the spec: the header \<^verbatim>\<open>fg_argparser.h\<close>, which declares the enum
  \<^verbatim>\<open>ap_Has_arg\<close> and the structs, is missing. The code uses the enumerators \<^verbatim>\<open>ap_no\<close> and
  \<^verbatim>\<open>ap_yes\<close> and tells \<^verbatim>\<open>has_arg != ap_no\<close> from \<^verbatim>\<open>has_arg == ap_yes\<close>; \<open>ap_maybe\<close> stands for
  the third (optional argument) state the spec's design notes mention. The descriptor has
  the fields \<open>code\<close>, \<open>name\<close>, \<open>has_arg\<close> of the spec, and a fourth one that the initialiser
  \<^verbatim>\<open>{0, 0, ap_no, 0}\<close> of \<^verbatim>\<open>ap_init\<close> shows, called \<open>tag\<close> here; no code path reads it.
\<close>

datatype ap_Has_arg = ap_no | ap_yes | ap_maybe

record ap_Option =
  code :: int
  name :: "string option"
  has_arg :: ap_Has_arg
  tag :: int

text \<open>
  A record refers to its descriptor through a pointer; the model stores the descriptor
  pointed to.
\<close>

record ap_Record =
  option :: ap_Option
  argument :: string
  opt_string :: string

text \<open>
  \<open>data\<close> is \<^verbatim>\<open>NULL\<close> or the array of the records stored so far; \<open>data_size\<close> is the
  counter the code keeps next to it.
\<close>

record arg_parser =
  data :: "ap_Record list option"
  data_size :: int
  error :: "string option"
  error_size :: int

subsection \<open>C strings\<close>

definition NUL :: char where
  "NUL = CHR 0x00"

definition cnth :: "string \<Rightarrow> nat \<Rightarrow> char" where
  "cnth s i = (if i < length s then s ! i else NUL)"

text \<open>
  \<^verbatim>\<open>strncmp(a, b, n)\<close>: compares at most \<open>n\<close> characters and stops at the end of either
  string. Only the sign of the result is specified in C; the model returns -1, 0 or 1.
\<close>

fun strncmp :: "string \<Rightarrow> string \<Rightarrow> nat \<Rightarrow> int" where
  "strncmp a b 0 = 0"
| "strncmp [] [] (Suc n) = 0"
| "strncmp [] (y # ys) (Suc n) = -1"
| "strncmp (x # xs) [] (Suc n) = 1"
| "strncmp (x # xs) (y # ys) (Suc n) =
     (if x = y then strncmp xs ys n
      else if (of_char x :: nat) < of_char y then -1 else 1)"

subsection \<open>Allocation\<close>

type_synonym allocator = "nat \<Rightarrow> bool"

text \<open>
  \<^verbatim>\<open>ap_resize_buffer\<close>: \<^verbatim>\<open>realloc\<close> or \<^verbatim>\<open>malloc\<close>. The result says whether the pointer returned
  is non-null; the contents of a grown buffer are kept by the caller's model.
\<close>

definition ap_resize_buffer :: "allocator \<Rightarrow> bool \<times> allocator" where
  "ap_resize_buffer h = (h 0, \<lambda>n. h (Suc n))"

definition no_failure :: allocator where
  "no_failure = (\<lambda>n. True)"

subsection \<open>Record store and error accumulator\<close>

definition records :: "arg_parser \<Rightarrow> ap_Record list" where
  "records ap = (case data ap of None \<Rightarrow> [] | Some rs \<Rightarrow> rs)"

text \<open>
  The text \<^verbatim>\<open>asprintf\<close> produces. \<^verbatim>\<open>%c\<close> prints the code converted to \<^verbatim>\<open>unsigned char\<close>; a
  NUL byte ends the C string. \<^verbatim>\<open>%s\<close> of a null pointer prints \<^verbatim>\<open>(null)\<close> in glibc; the parser
  never gets there.
\<close>

definition long_string :: "ap_Option \<Rightarrow> string" where
  "long_string opt = ''--'' @ (case name opt of None \<Rightarrow> ''(null)'' | Some n \<Rightarrow> n)"

definition short_string :: "ap_Option \<Rightarrow> string" where
  "short_string opt =
     CHR ''-'' # (if code opt mod 256 = 0 then [] else [char_of (code opt)])"

text \<open>
  \<^verbatim>\<open>push_back_record\<close>. \<^verbatim>\<open>asprintf\<close> returns the number of bytes it printed, which is at
  least 2 here, so the test \<^verbatim>\<open>!asprintf(...)\<close> never holds; the model keeps the test on that
  count. (A failing \<^verbatim>\<open>asprintf\<close> returns -1, which this test does not catch either; its own
  allocation is not part of the model.)
\<close>

definition push_back_record ::
  "allocator \<Rightarrow> arg_parser \<Rightarrow> ap_Option \<Rightarrow> bool \<Rightarrow> string \<Rightarrow> bool \<times> allocator \<times> arg_parser" where
  "push_back_record h ap opt long_opt arg =
     (case ap_resize_buffer h of (ok1, h1) \<Rightarrow>
        if \<not> ok1 then (False, h1, ap)
        else
          let ap1 = ap\<lparr>data := Some (records ap)\<rparr> in
          (case ap_resize_buffer h1 of (ok2, h2) \<Rightarrow>
             if \<not> ok2 then (False, h2, ap1)
             else
               let s = (if long_opt then long_string opt else short_string opt);
                   printed = (if long_opt then length s else 2);
                   p = \<lparr>option = opt, argument = arg, opt_string = s\<rparr>
               in if printed = 0 then (False, h2, ap1)
                  else (True, h2,
                        ap1\<lparr>data := Some (records ap @ [p]), data_size := data_size ap + 1\<rparr>)))"

text \<open>
  \<^verbatim>\<open>add_error\<close>: the message is written at offset \<open>error_size\<close> of the grown buffer.
\<close>

definition add_error :: "allocator \<Rightarrow> arg_parser \<Rightarrow> string \<Rightarrow> bool \<times> allocator \<times> arg_parser" where
  "add_error h ap msg =
     (let len = length msg in
      case ap_resize_buffer h of (ok, h1) \<Rightarrow>
        if \<not> ok then (False, h1, ap)
        else (True, h1,
              ap\<lparr>error := Some (take (nat (error_size ap))
                                   (case error ap of None \<Rightarrow> [] | Some e \<Rightarrow> e) @ msg),
                 error_size := error_size ap + int len\<rparr>))"

text \<open>
  The callers ignore the result of \<^verbatim>\<open>add_error\<close>; they add three fragments in a row
  (\<^verbatim>\<open>parse_long_option\<close>) or two (\<^verbatim>\<open>parse_short_option\<close>).
\<close>

definition add_errors ::
  "allocator \<Rightarrow> arg_parser \<Rightarrow> string \<Rightarrow> string \<Rightarrow> string \<Rightarrow> allocator \<times> arg_parser" where
  "add_errors h ap m1 m2 m3 =
     (case add_error h ap m1 of (r1, h1, ap1) \<Rightarrow>
      case add_error h1 ap1 m2 of (r2, h2, ap2) \<Rightarrow>
      case add_error h2 ap2 m3 of (r3, h3, ap3) \<Rightarrow> (h3, ap3))"

definition add_errors2 ::
  "allocator \<Rightarrow> arg_parser \<Rightarrow> string \<Rightarrow> string \<Rightarrow> allocator \<times> arg_parser" where
  "add_errors2 h ap m1 m2 =
     (case add_error h ap m1 of (r1, h1, ap1) \<Rightarrow>
      case add_error h1 ap1 m2 of (r2, h2, ap2) \<Rightarrow> (h2, ap2))"

text \<open>
  Reading \<^verbatim>\<open>ap->data[i]\<close>: \<open>None\<close> is an invalid read (null pointer or index outside the
  array).
\<close>

definition data_at :: "arg_parser \<Rightarrow> int \<Rightarrow> ap_Record option" where
  "data_at ap i =
     (case data ap of
        None \<Rightarrow> None
      | Some rs \<Rightarrow> if 0 \<le> i \<and> nat i < length rs then Some (rs ! nat i) else None)"

text \<open>
  \<^verbatim>\<open>free_data\<close>. The model returns the blocks handed to \<^verbatim>\<open>free\<close>, in order, next to the new
  state; \<open>None\<close> is an invalid read in the loop.
\<close>

datatype block = Chars string | Array "ap_Record list"

function free_loop :: "arg_parser \<Rightarrow> int \<Rightarrow> block list \<Rightarrow> block list option" where
  "free_loop ap i freed =
     (if i < data_size ap then
        (case data_at ap i of
           None \<Rightarrow> None
         | Some r \<Rightarrow> free_loop ap (i + 1) (freed @ [Chars (argument r), Chars (opt_string r)]))
      else Some freed)"
  by pat_completeness auto
termination
  by (relation "measure (\<lambda>(ap, i, freed). nat (data_size ap - i))") auto

definition free_data :: "arg_parser \<Rightarrow> (block list \<times> arg_parser) option" where
  "free_data ap =
     (case free_loop ap 0 [] of
        None \<Rightarrow> None
      | Some freed \<Rightarrow>
          (case data ap of
             Some rs \<Rightarrow> Some (freed @ [Array rs], ap\<lparr>data := None, data_size := 0\<rparr>)
           | None \<Rightarrow> Some (freed, ap\<lparr>data_size := 0\<rparr>)))"

subsection \<open>Long options\<close>

text \<open>
  The loop \<^verbatim>\<open>for (len = 0; opt[len + 2] && opt[len + 2] != '='; ++len);\<close> of
  \<^verbatim>\<open>parse_long_option\<close>.
\<close>

function name_len :: "string \<Rightarrow> nat \<Rightarrow> nat" where
  "name_len opt len =
     (if cnth opt (len + 2) \<noteq> NUL \<and> cnth opt (len + 2) \<noteq> CHR ''=''
      then name_len opt (len + 1) else len)"
  by pat_completeness auto
termination
  by (relation "measure (\<lambda>(opt, len). length opt - (len + 2))")
     (auto simp: cnth_def NUL_def split: if_splits)

text \<open>
  The loop over the table: \<open>i\<close> is the loop variable, \<open>index\<close> and \<open>ambig\<close> the locals it
  updates; the result is (\<open>index\<close>, \<open>exact\<close>, \<open>ambig\<close>) at the end of the loop. The table is
  the list of the array's elements; the end of the list is read like the sentinel
  (\<open>code = 0\<close>) that ends the array.
\<close>

function long_scan ::
  "ap_Option list \<Rightarrow> string \<Rightarrow> nat \<Rightarrow> nat \<Rightarrow> int \<Rightarrow> bool \<Rightarrow> int \<times> bool \<times> bool" where
  "long_scan options opt len i index ambig =
     (if i < length options \<and> code (options ! i) \<noteq> 0 then
        (case name (options ! i) of
           None \<Rightarrow> long_scan options opt len (i + 1) index ambig
         | Some n \<Rightarrow>
             if strncmp n (drop 2 opt) len = 0 then
               if length n = len then (int i, True, ambig)
               else if index < 0 then long_scan options opt len (i + 1) (int i) ambig
               else if code (options ! nat index) \<noteq> code (options ! i) \<or>
                       has_arg (options ! nat index) \<noteq> has_arg (options ! i)
                    then long_scan options opt len (i + 1) index True
               else long_scan options opt len (i + 1) index ambig
             else long_scan options opt len (i + 1) index ambig)
      else (index, False, ambig))"
  by pat_completeness auto
termination
  by (relation "measure (\<lambda>(options, opt, len, i, index, ambig). length options - i)") auto

text \<open>The name of the selected entry, which is never null.\<close>

definition name_of :: "ap_Option \<Rightarrow> string" where
  "name_of opt = (case name opt of None \<Rightarrow> [] | Some n \<Rightarrow> n)"

text \<open>
  \<^verbatim>\<open>parse_long_option\<close>: the result is the C result, the allocator, the parser state and
  \<^verbatim>\<open>*argindp\<close>. \<open>long_finish\<close> is the part of the function after the two lookup errors, from
  \<^verbatim>\<open>++*argindp\<close> on, for the selected entry \<open>ent\<close> = \<^verbatim>\<open>options[index]\<close>.
\<close>

definition long_finish ::
  "allocator \<Rightarrow> arg_parser \<Rightarrow> string \<Rightarrow> nat \<Rightarrow> string option \<Rightarrow> ap_Option \<Rightarrow> nat
     \<Rightarrow> bool \<times> allocator \<times> arg_parser \<times> nat" where
  "long_finish h ap opt len arg ent argind =
     (let argind1 = argind + 1 in
        if cnth opt (len + 2) \<noteq> NUL then
          if has_arg ent = ap_no then
            (case add_errors h ap (''option '' @ [CHR 0x27] @ ''--'') (name_of ent)
                    ([CHR 0x27] @ '' doesn'' @ [CHR 0x27] @ ''t allow an argument'')
               of (h', ap') \<Rightarrow> (True, h', ap', argind1))
          else if has_arg ent = ap_yes \<and> cnth opt (len + 3) = NUL then
            (case add_errors h ap (''option '' @ [CHR 0x27] @ ''--'') (name_of ent)
                    ([CHR 0x27] @ '' requires an argument'')
               of (h', ap') \<Rightarrow> (True, h', ap', argind1))
          else
            (case push_back_record h ap ent True (drop (len + 3) opt)
               of (r, h', ap') \<Rightarrow> (r, h', ap', argind1))
        else if has_arg ent = ap_yes then
          (case arg of
             None \<Rightarrow>
               (case add_errors h ap (''option '' @ [CHR 0x27] @ ''--'') (name_of ent)
                       ([CHR 0x27] @ '' requires an argument'')
                  of (h', ap') \<Rightarrow> (True, h', ap', argind1))
           | Some a \<Rightarrow>
               if cnth a 0 = NUL then
                 (case add_errors h ap (''option '' @ [CHR 0x27] @ ''--'') (name_of ent)
                         ([CHR 0x27] @ '' requires an argument'')
                    of (h', ap') \<Rightarrow> (True, h', ap', argind1))
               else
                 (case push_back_record h ap ent True a
                    of (r, h', ap') \<Rightarrow> (r, h', ap', argind1 + 1)))
        else
          (case push_back_record h ap ent True []
             of (r, h', ap') \<Rightarrow> (r, h', ap', argind1)))"

definition parse_long_option ::
  "allocator \<Rightarrow> arg_parser \<Rightarrow> string \<Rightarrow> string option \<Rightarrow> ap_Option list \<Rightarrow> nat
     \<Rightarrow> bool \<times> allocator \<times> arg_parser \<times> nat" where
  "parse_long_option h ap opt arg options argind =
     (let len = name_len opt 0 in
      case long_scan options opt len 0 (-1) False of (index, exact, ambig) \<Rightarrow>
        if ambig \<and> \<not> exact then
          (case add_errors h ap (''option '' @ [CHR 0x27]) opt ([CHR 0x27] @ '' is ambiguous'')
             of (h', ap') \<Rightarrow> (True, h', ap', argind))
        else if index < 0 then
          (case add_errors h ap (''unrecognized option '' @ [CHR 0x27]) opt [CHR 0x27]
             of (h', ap') \<Rightarrow> (True, h', ap', argind))
        else long_finish h ap opt len arg (options ! nat index) argind)"

subsection \<open>Short options\<close>

text \<open>
  The lookup loop of \<^verbatim>\<open>parse_short_option\<close>; \<open>c\<close> is the \<^verbatim>\<open>unsigned char\<close> looked for, and the
  result is \<open>index\<close> after the loop.
\<close>

function short_find :: "ap_Option list \<Rightarrow> char \<Rightarrow> nat \<Rightarrow> int" where
  "short_find options c i =
     (if i < length options \<and> code (options ! i) \<noteq> 0 then
        if of_char c = code (options ! i) then int i
        else short_find options c (i + 1)
      else -1)"
  by pat_completeness auto
termination
  by (relation "measure (\<lambda>(options, c, i). length options - i)") auto

text \<open>The string \<^verbatim>\<open>code_str\<close>: one character and the terminator.\<close>

definition code_str :: "char \<Rightarrow> string" where
  "code_str c = (if c = NUL then [] else [c])"

text \<open>
  The body of the loop \<^verbatim>\<open>while (cind > 0)\<close> of \<^verbatim>\<open>parse_short_option\<close>: \<open>Inl\<close> is the result
  of a \<^verbatim>\<open>return\<close> (the C result, the allocator, the parser state and \<^verbatim>\<open>*argindp\<close>), \<open>Inr\<close> the
  values of the allocator, the parser state, \<^verbatim>\<open>*argindp\<close> and \<open>cind\<close> at the end of the body.
  \<open>fin\<close> says that the test \<^verbatim>\<open>opt[++cind] == 0\<close> held; \<open>argind1\<close> and \<open>cind1\<close> are the two
  variables after it.
\<close>

definition short_body ::
  "allocator \<Rightarrow> arg_parser \<Rightarrow> string \<Rightarrow> string option \<Rightarrow> ap_Option list \<Rightarrow> nat \<Rightarrow> nat
     \<Rightarrow> (bool \<times> allocator \<times> arg_parser \<times> nat) + (allocator \<times> arg_parser \<times> nat \<times> nat)" where
  "short_body h ap opt arg options argind cind =
     (let c = cnth opt cind;
          index = (if c \<noteq> NUL then short_find options c 0 else -1)
      in
        if index < 0 then
          (case add_errors2 h ap ''invalid option -- '' (code_str c)
             of (h', ap') \<Rightarrow> Inl (True, h', ap', argind))
        else
          let ent = options ! nat index;
              fin = (cnth opt (cind + 1) = NUL);
              argind1 = (if fin then argind + 1 else argind);
              cind1 = (if fin then 0 else cind + 1)
          in
            if has_arg ent \<noteq> ap_no \<and> cind1 > 0 \<and> cnth opt cind1 \<noteq> NUL then
              (case push_back_record h ap ent False (drop cind1 opt) of (r, h', ap') \<Rightarrow>
                 if \<not> r then Inl (False, h', ap', argind1)
                 else Inr (h', ap', argind1 + 1, 0))
            else if has_arg ent = ap_yes then
              (case arg of
                 None \<Rightarrow>
                   (case add_errors2 h ap ''option requires an argument -- '' (code_str c)
                      of (h', ap') \<Rightarrow> Inl (True, h', ap', argind1))
               | Some a \<Rightarrow>
                   if cnth a 0 = NUL then
                     (case add_errors2 h ap ''option requires an argument -- '' (code_str c)
                        of (h', ap') \<Rightarrow> Inl (True, h', ap', argind1))
                   else
                     (case push_back_record h ap ent False a of (r, h', ap') \<Rightarrow>
                        if \<not> r then Inl (False, h', ap', argind1 + 1)
                        else Inr (h', ap', argind1 + 1, 0)))
            else
              (case push_back_record h ap ent False [] of (r, h', ap') \<Rightarrow>
                 if \<not> r then Inl (False, h', ap', argind1)
                 else Inr (h', ap', argind1, cind1)))"

text \<open>The loop \<^verbatim>\<open>while (cind > 0)\<close> and the \<^verbatim>\<open>return 1\<close> after it.\<close>

function short_loop ::
  "allocator \<Rightarrow> arg_parser \<Rightarrow> string \<Rightarrow> string option \<Rightarrow> ap_Option list \<Rightarrow> nat \<Rightarrow> nat
     \<Rightarrow> bool \<times> allocator \<times> arg_parser \<times> nat" where
  "short_loop h ap opt arg options argind cind =
     (if cind > 0 then
        (case short_body h ap opt arg options argind cind of
           Inl res \<Rightarrow> res
         | Inr (h', ap', argind', cind') \<Rightarrow> short_loop h' ap' opt arg options argind' cind')
      else (True, h, ap, argind))"
  by pat_completeness auto
termination
proof (relation "measure (\<lambda>(h, ap, opt, arg, options, argind, cind).
                  if cind = 0 then 0 else Suc (length opt - cind))", goal_cases)
  case 1
  show ?case by simp
next
  case (2 h ap opt arg options argind cind st h' rest ap' rest' argind' cind')
  define c where "c = cnth opt cind"
  define index where "index = (if c \<noteq> NUL then short_find options c 0 else -1)"
  define ent where "ent = options ! nat index"
  define fin where "fin = (cnth opt (cind + 1) = NUL)"
  define cind1 where "cind1 = (if fin then 0 else cind + 1)"
  have "cnth opt (cind + 1) \<noteq> NUL \<Longrightarrow> cind + 1 < length opt"
    by (simp add: cnth_def split: if_splits)
  then have c1: "cind1 = 0 \<or> cind1 = cind + 1 \<and> cind + 1 < length opt"
    by (simp add: cind1_def fin_def)
  from 2 have "short_body h ap opt arg options argind cind = Inr (h', ap', argind', cind')"
    by simp
  then have "cind' = 0 \<or> cind' = cind1"
    unfolding short_body_def Let_def c_def [symmetric] index_def [symmetric]
       ent_def [symmetric] fin_def [symmetric] cind1_def [symmetric]
    by (simp split: if_splits prod.splits option.splits)
  with c1 \<open>0 < cind\<close> show ?case by auto
qed

definition parse_short_option ::
  "allocator \<Rightarrow> arg_parser \<Rightarrow> string \<Rightarrow> string option \<Rightarrow> ap_Option list \<Rightarrow> nat
     \<Rightarrow> bool \<times> allocator \<times> arg_parser \<times> nat" where
  "parse_short_option h ap opt arg options argind = short_loop h ap opt arg options argind 1"

subsection \<open>The driver\<close>

definition non_option :: ap_Option where
  "non_option = \<lparr>code = 0, name = None, has_arg = ap_no, tag = 0\<rparr>"

text \<open>
  The body of the loop \<^verbatim>\<open>while (argind < argc)\<close> of \<^verbatim>\<open>ap_init\<close>. \<open>argv\<close> is the list of the
  \<open>argc\<close> strings \<^verbatim>\<open>argv[0]\<close>, ..., \<^verbatim>\<open>argv[argc - 1]\<close>, so \<open>argc\<close> is its length. The result
  is \<open>Inl\<close> where the code leaves by \<^verbatim>\<open>return 0\<close>; otherwise it is \<open>Inr\<close> with a flag that says
  whether the body left by \<^verbatim>\<open>break\<close>, and the allocator, the parser state and the locals
  \<open>non_options\<close> and \<open>argind\<close>.
\<close>

definition scan_body ::
  "string list \<Rightarrow> ap_Option list \<Rightarrow> bool \<Rightarrow> allocator \<Rightarrow> arg_parser \<Rightarrow> string list \<Rightarrow> nat
     \<Rightarrow> arg_parser + bool \<times> allocator \<times> arg_parser \<times> string list \<times> nat" where
  "scan_body argv options in_order h ap non_options argind =
     (let ch1 = cnth (argv ! argind) 0;
          ch2 = (if ch1 \<noteq> NUL then cnth (argv ! argind) 1 else NUL)
      in
        if ch1 = CHR ''-'' \<and> ch2 \<noteq> NUL then
          let opt = argv ! argind;
              arg = (if argind + 1 < length argv then Some (argv ! (argind + 1)) else None)
          in
            if ch2 = CHR ''-'' \<and> cnth (argv ! argind) 2 = NUL then
              Inr (True, h, ap, non_options, argind + 1)
            else
              (case (if ch2 = CHR ''-'' then parse_long_option h ap opt arg options argind
                     else parse_short_option h ap opt arg options argind)
               of (r, h', ap', argind') \<Rightarrow>
                 if \<not> r then Inl ap'
                 else Inr (error ap' \<noteq> None, h', ap', non_options, argind'))
        else if \<not> in_order then
          (case ap_resize_buffer h of (ok, h') \<Rightarrow>
             if \<not> ok then Inl ap
             else Inr (False, h', ap, non_options @ [argv ! argind], argind + 1))
        else
          (case push_back_record h ap non_option False (argv ! argind) of (r, h', ap') \<Rightarrow>
             if \<not> r then Inl ap'
             else Inr (False, h', ap', non_options, argind + 1)))"

text \<open>
  The loop: \<open>Inl\<close> is \<^verbatim>\<open>return 0\<close>, \<open>Inr\<close> gives the allocator, the parser state and the
  locals where the loop ends or breaks, and \<open>None\<close> says that the loop runs forever.
\<close>

partial_function (option) ap_scan ::
  "string list \<Rightarrow> ap_Option list \<Rightarrow> bool \<Rightarrow> allocator \<Rightarrow> arg_parser \<Rightarrow> string list \<Rightarrow> nat
     \<Rightarrow> (arg_parser + allocator \<times> arg_parser \<times> string list \<times> nat) option" where
  "ap_scan argv options in_order h ap non_options argind =
     (if argind < length argv then
        (case scan_body argv options in_order h ap non_options argind of
           Inl ap' \<Rightarrow> Some (Inl ap')
         | Inr (brk, h', ap', non_options', argind') \<Rightarrow>
             if brk then Some (Inr (h', ap', non_options', argind'))
             else ap_scan argv options in_order h' ap' non_options' argind')
      else Some (Inr (h, ap, non_options, argind)))"

declare ap_scan.simps [code]

text \<open>
  The two loops after the scan, which store a list of operands: \<open>Inl\<close> is \<^verbatim>\<open>return 0\<close>.
\<close>

fun push_operands ::
  "allocator \<Rightarrow> arg_parser \<Rightarrow> string list \<Rightarrow> arg_parser + allocator \<times> arg_parser" where
  "push_operands h ap [] = Inr (h, ap)"
| "push_operands h ap (x # xs) =
     (case push_back_record h ap non_option False x of (r, h', ap') \<Rightarrow>
        if \<not> r then Inl ap' else push_operands h' ap' xs)"

definition ap_empty :: arg_parser where
  "ap_empty = \<lparr>data = None, data_size = 0, error = None, error_size = 0\<rparr>"

text \<open>
  \<^verbatim>\<open>ap_init\<close>: the C result and the parser state it leaves; \<open>None\<close> where the call does
  not return. \<open>argv\<close> and \<open>options\<close> may be null pointers. \<open>ap_finish\<close> is the part of the
  function after the scanning loop; \<open>rest\<close> is the list of the tokens \<^verbatim>\<open>argv[argind]\<close>, ...,
  \<^verbatim>\<open>argv[argc - 1]\<close> that its last loop stores.
\<close>

definition ap_finish ::
  "allocator \<Rightarrow> arg_parser \<Rightarrow> string list \<Rightarrow> string list \<Rightarrow> (bool \<times> arg_parser) option" where
  "ap_finish h ap non_options rest =
     (if error ap \<noteq> None then
        (case free_data ap of
           None \<Rightarrow> None
         | Some (freed, ap') \<Rightarrow> Some (True, ap'))
      else
        (case push_operands h ap non_options of
           Inl ap' \<Rightarrow> Some (False, ap')
         | Inr (h2, ap2) \<Rightarrow>
             (case push_operands h2 ap2 rest of
                Inl ap' \<Rightarrow> Some (False, ap')
              | Inr (h3, ap3) \<Rightarrow> Some (True, ap3))))"

definition ap_init ::
  "allocator \<Rightarrow> string list option \<Rightarrow> ap_Option list option \<Rightarrow> bool
     \<Rightarrow> (bool \<times> arg_parser) option" where
  "ap_init h argv options in_order =
     (case (argv, options) of
        (Some av, Some opts) \<Rightarrow>
          if length av < 2 then Some (True, ap_empty)
          else
            (case ap_scan av opts in_order h ap_empty [] 1 of
               None \<Rightarrow> None
             | Some (Inl ap) \<Rightarrow> Some (False, ap)
             | Some (Inr (h1, ap, non_options, argind)) \<Rightarrow>
                 ap_finish h1 ap non_options (drop argind av))
      | _ \<Rightarrow> Some (True, ap_empty))"

subsection \<open>Teardown and accessors\<close>

text \<open>\<^verbatim>\<open>ap_free\<close>: the blocks handed to \<^verbatim>\<open>free\<close> and the new state.\<close>

definition ap_free :: "arg_parser \<Rightarrow> (block list \<times> arg_parser) option" where
  "ap_free ap =
     (case free_data ap of
        None \<Rightarrow> None
      | Some (freed, ap1) \<Rightarrow>
          (case error ap1 of
             Some e \<Rightarrow> Some (freed @ [Chars e], ap1\<lparr>error := None, error_size := 0\<rparr>)
           | None \<Rightarrow> Some (freed, ap1\<lparr>error_size := 0\<rparr>)))"

definition ap_error :: "arg_parser \<Rightarrow> string option" where
  "ap_error ap = error ap"

definition ap_arguments :: "arg_parser \<Rightarrow> int" where
  "ap_arguments ap = data_size ap"

text \<open>
  The accessors read \<^verbatim>\<open>ap->data[i]\<close> in their first branch only; \<open>None\<close> is an invalid
  read there.
\<close>

definition ap_code :: "arg_parser \<Rightarrow> int \<Rightarrow> int option" where
  "ap_code ap i =
     (if i \<ge> 0 \<and> i < ap_arguments ap then map_option (\<lambda>r. code (option r)) (data_at ap i)
      else Some 0)"

definition ap_argument :: "arg_parser \<Rightarrow> int \<Rightarrow> string option" where
  "ap_argument ap i =
     (if i \<ge> 0 \<and> i < ap_arguments ap then map_option argument (data_at ap i)
      else Some [])"

definition ap_opt_string :: "arg_parser \<Rightarrow> int \<Rightarrow> string option" where
  "ap_opt_string ap i =
     (if i \<ge> 0 \<and> i < ap_arguments ap then map_option opt_string (data_at ap i)
      else Some [])"

text \<open>\<^verbatim>\<open>ap_option\<close> returns a pointer: \<open>Some None\<close> is the null pointer.\<close>

definition ap_option :: "arg_parser \<Rightarrow> int \<Rightarrow> ap_Option option option" where
  "ap_option ap i =
     (if i \<ge> 0 \<and> i < ap_arguments ap then map_option (\<lambda>r. Some (option r)) (data_at ap i)
      else Some None)"



subsection \<open>Notions used to state the properties\<close>

text \<open>The entries of a table: the elements before the sentinel.\<close>

definition entries :: "ap_Option list \<Rightarrow> ap_Option list" where
  "entries options = takeWhile (\<lambda>e. code e \<noteq> 0) options"

text \<open>
  The invariant of a parser state: the two counters agree with the buffers they
  describe.
\<close>

definition wf_parser :: "arg_parser \<Rightarrow> bool" where
  "wf_parser ap \<longleftrightarrow>
     data_size ap = int (length (records ap)) \<and>
     error_size ap = int (length (case error ap of None \<Rightarrow> [] | Some e \<Rightarrow> e))"

text \<open>The state after one more record has been stored.\<close>

definition append_record :: "arg_parser \<Rightarrow> ap_Record \<Rightarrow> arg_parser" where
  "append_record ap p = ap\<lparr>data := Some (records ap @ [p]), data_size := data_size ap + 1\<rparr>"

text \<open>The record of an option found in short form, in long form, and of an operand.\<close>

definition short_record :: "ap_Option \<Rightarrow> string \<Rightarrow> ap_Record" where
  "short_record ent a = \<lparr>option = ent, argument = a, opt_string = short_string ent\<rparr>"

definition long_record :: "ap_Option \<Rightarrow> string \<Rightarrow> ap_Record" where
  "long_record ent a = \<lparr>option = ent, argument = a, opt_string = long_string ent\<rparr>"

definition operand :: "string \<Rightarrow> ap_Record" where
  "operand tok = \<lparr>option = non_option, argument = tok, opt_string = ''-''\<rparr>"

text \<open>The state after a first error message has been composed.\<close>

definition with_error :: "arg_parser \<Rightarrow> string \<Rightarrow> arg_parser" where
  "with_error ap msg = ap\<lparr>error := Some msg, error_size := int (length msg)\<rparr>"

text \<open>
  A long-option token: \<open>--name\<close>, or \<open>--name=value\<close>. The name holds neither \<open>=\<close> nor NUL.
\<close>

definition long_token :: "string \<Rightarrow> string option \<Rightarrow> string" where
  "long_token n v = ''--'' @ n @ (case v of None \<Rightarrow> [] | Some w \<Rightarrow> CHR ''='' # w)"

definition option_name :: "string \<Rightarrow> bool" where
  "option_name n \<longleftrightarrow> CHR ''='' \<notin> set n \<and> NUL \<notin> set n"

text \<open>
  \<open>n\<close> is a prefix of the name of the entry (the whole name included); two entries differ
  in \<open>code\<close> or \<open>has_arg\<close>.
\<close>

definition abbreviates :: "string \<Rightarrow> ap_Option \<Rightarrow> bool" where
  "abbreviates n e = (case name e of None \<Rightarrow> False | Some m \<Rightarrow> take (length n) m = n)"

definition differs :: "ap_Option \<Rightarrow> ap_Option \<Rightarrow> bool" where
  "differs e1 e2 \<longleftrightarrow> code e1 \<noteq> code e2 \<or> has_arg e1 \<noteq> has_arg e2"

text \<open>
  The test of the driver on a token: it starts with \<open>-\<close> and has a second character.
\<close>

definition looks_like_option :: "string \<Rightarrow> bool" where
  "looks_like_option tok \<longleftrightarrow> cnth tok 0 = CHR ''-'' \<and> cnth tok 1 \<noteq> NUL"

text \<open>The argument \<^verbatim>\<open>arg\<close> the driver hands to the resolvers: the next token, if there is one.\<close>

definition next_arg :: "string list \<Rightarrow> nat \<Rightarrow> string option" where
  "next_arg argv argind = (if argind + 1 < length argv then Some (argv ! (argind + 1)) else None)"

text \<open>The token is exactly \<open>--\<close>, as the driver tests it.\<close>

definition is_terminator :: "string \<Rightarrow> bool" where
  "is_terminator tok \<longleftrightarrow> looks_like_option tok \<and> cnth tok 1 = CHR ''-'' \<and> cnth tok 2 = NUL"

text \<open>The state after a list of records has been stored, one after the other.\<close>

definition append_records :: "arg_parser \<Rightarrow> ap_Record list \<Rightarrow> arg_parser" where
  "append_records ap rs =
     ap\<lparr>data := (if rs = [] then data ap else Some (records ap @ rs)),
        data_size := data_size ap + int (length rs)\<rparr>"



text \<open>The arguments of the operand records of a list of records, in order.\<close>

definition operand_args :: "ap_Record list \<Rightarrow> string list" where
  "operand_args rs = map argument (filter (\<lambda>r. option r = non_option) rs)"




declare name_len.simps [simp del]
declare long_scan.simps [simp del]
declare short_find.simps [simp del]
declare short_loop.simps [simp del]
declare free_loop.simps [simp del]

section \<open>Basic facts\<close>

subsection \<open>Allocation that never fails\<close>

lemma resize_no_failure [simp]: "ap_resize_buffer no_failure = (True, no_failure)"
  by (simp add: ap_resize_buffer_def no_failure_def)

lemma long_string_nonempty: "length (long_string ent) \<noteq> 0"
  by (simp add: long_string_def)

lemma push_no_failure:
  "push_back_record no_failure ap ent long_opt a =
     (True, no_failure,
      append_record ap (if long_opt then long_record ent a else short_record ent a))"
  by (simp add: push_back_record_def append_record_def long_record_def short_record_def
        Let_def long_string_def)

lemma add_error_no_failure:
  "add_error no_failure ap msg =
     (True, no_failure,
      ap\<lparr>error := Some (take (nat (error_size ap))
                           (case error ap of None \<Rightarrow> [] | Some e \<Rightarrow> e) @ msg),
         error_size := error_size ap + int (length msg)\<rparr>)"
  by (simp add: add_error_def)

lemma add_errors_no_failure:
  "error ap = None \<Longrightarrow> error_size ap = 0 \<Longrightarrow>
   add_errors no_failure ap m1 m2 m3 = (no_failure, with_error ap (m1 @ m2 @ m3))"
  by (simp add: add_errors_def add_error_no_failure with_error_def)

lemma add_errors2_no_failure:
  "error ap = None \<Longrightarrow> error_size ap = 0 \<Longrightarrow>
   add_errors2 no_failure ap m1 m2 = (no_failure, with_error ap (m1 @ m2))"
  by (simp add: add_errors2_def add_error_no_failure with_error_def)

lemma operand_short: "short_record non_option tok = operand tok"
  by (simp add: short_record_def operand_def short_string_def non_option_def)

lemma strncmp_eq_0: "strncmp a b n = 0 \<longleftrightarrow> take n a = take n b"
  by (induction a b n rule: strncmp.induct) auto

lemma cnth_Cons_0 [simp]: "cnth (x # xs) 0 = x"
  by (simp add: cnth_def)

lemma cnth_Nil [simp]: "cnth [] i = NUL"
  by (simp add: cnth_def)

lemma cnth_Cons_Suc [simp]: "cnth (x # xs) (Suc i) = cnth xs i"
  by (simp add: cnth_def)

lemma cnth_append_length: "cnth (xs @ ys) (length xs + i) = cnth ys i"
  by (simp add: cnth_def nth_append)


subsection \<open>The name slice and the table\<close>

lemma name_len_gen:
  "name_len opt len =
     len + length (takeWhile (\<lambda>c. c \<noteq> NUL \<and> c \<noteq> CHR ''='') (drop (len + 2) opt))"
proof (induction opt len rule: name_len.induct)
  case (1 opt len)
  show ?case
  proof (cases "cnth opt (len + 2) \<noteq> NUL \<and> cnth opt (len + 2) \<noteq> CHR ''=''")
    case True
    then have lt: "len + 2 < length opt"
      by (auto simp: cnth_def split: if_splits)
    then have d: "drop (len + 2) opt = opt ! (len + 2) # drop (len + 1 + 2) opt"
      by (simp add: Cons_nth_drop_Suc)
    from True lt have "opt ! (len + 2) \<noteq> NUL \<and> opt ! (len + 2) \<noteq> CHR ''=''"
      by (simp add: cnth_def)
    with True 1 d show ?thesis
      by (subst name_len.simps) simp
  next
    case False
    have "takeWhile (\<lambda>c. c \<noteq> NUL \<and> c \<noteq> CHR ''='') (drop (len + 2) opt) = []"
    proof (cases "len + 2 < length opt")
      case True
      then have "drop (len + 2) opt = opt ! (len + 2) # drop (len + 1 + 2) opt"
        by (simp add: Cons_nth_drop_Suc)
      with False True show ?thesis by (auto simp: cnth_def)
    next
      case False
      then show ?thesis by simp
    qed
    moreover from False have "name_len opt len = len"
      by (subst name_len.simps) (simp only: if_False)
    ultimately show ?thesis by simp
  qed
qed

lemma name_len_token:
  assumes "option_name n"
  shows "name_len (long_token n v) 0 = length n"
proof -
  let ?P = "\<lambda>c. c \<noteq> NUL \<and> c \<noteq> CHR ''=''"
  from assms have all: "\<And>x. x \<in> set n \<Longrightarrow> ?P x"
    by (auto simp: option_name_def)
  have "takeWhile ?P (n @ ys) = n @ takeWhile ?P ys" for ys
    using all by (rule takeWhile_append2)
  then have "takeWhile ?P (n @ (case v of None \<Rightarrow> [] | Some w \<Rightarrow> CHR ''='' # w)) = n"
    using all by (cases v) auto
  then show ?thesis
    by (simp add: name_len_gen long_token_def)
qed

lemma slice_token: "take (length n) (drop 2 (long_token n v)) = n"
  by (simp add: long_token_def)

lemma cnth_token_end:
  "cnth (long_token n v) (length n + 2) = (case v of None \<Rightarrow> NUL | Some w \<Rightarrow> CHR ''='')"
  using cnth_append_length [of "''--'' @ n" _ 0]
  by (cases v) (simp_all add: long_token_def cnth_def)

lemma in_table_iff:
  assumes "i \<le> length (entries options)"
  shows "(i < length options \<and> code (options ! i) \<noteq> 0) \<longleftrightarrow> i < length (entries options)"
proof
  assume a: "i < length options \<and> code (options ! i) \<noteq> 0"
  show "i < length (entries options)"
  proof (rule ccontr)
    assume "\<not> i < length (entries options)"
    with assms have e: "i = length (entries options)" by simp
    with a have "length (takeWhile (\<lambda>e. code e \<noteq> 0) options) < length options"
      by (simp add: entries_def)
    from nth_length_takeWhile [OF this] a e show False
      by (simp add: entries_def)
  qed
next
  assume a: "i < length (entries options)"
  then have "i < length options"
    using length_takeWhile_le [of "\<lambda>e. code e \<noteq> 0" options] by (simp add: entries_def)
  moreover from a have "entries options ! i \<in> set (entries options)" by simp
  then have "code (entries options ! i) \<noteq> 0"
    by (auto simp: entries_def dest: set_takeWhileD)
  moreover from a have "entries options ! i = options ! i"
    by (simp add: entries_def takeWhile_nth)
  ultimately show "i < length options \<and> code (options ! i) \<noteq> 0" by simp
qed

subsection \<open>The lookup loop of the long options\<close>

lemma long_scan_step:
  assumes sl: "take (length n) (drop 2 opt) = n" and i: "i < length (entries options)"
  shows "long_scan options opt (length n) i index ambig =
     (if name (options ! i) = Some n then (int i, True, ambig)
      else if \<not> abbreviates n (options ! i) then long_scan options opt (length n) (i + 1) index ambig
      else if index < 0 then long_scan options opt (length n) (i + 1) (int i) ambig
      else long_scan options opt (length n) (i + 1) index
             (ambig \<or> differs (options ! nat index) (options ! i)))"
proof -
  from i have c: "i < length options \<and> code (options ! i) \<noteq> 0"
    by (simp add: in_table_iff)
  have ex: "take (length n) m = n \<and> length m = length n \<longleftrightarrow> m = n" for m
    by auto
  show ?thesis
  proof (cases "name (options ! i)")
    case None
    with c show ?thesis
      by (subst long_scan.simps) (simp add: abbreviates_def)
  next
    case (Some m)
    with c sl ex [of m] show ?thesis
      by (subst long_scan.simps) (auto simp: abbreviates_def strncmp_eq_0 differs_def)
  qed
qed

lemma long_scan_end:
  "long_scan options opt len (length (entries options)) index ambig = (index, False, ambig)"
proof -
  have "\<not> (length (entries options) < length options \<and>
           code (options ! length (entries options)) \<noteq> 0)"
    using in_table_iff [of "length (entries options)" options] by simp
  then show ?thesis
    by (subst long_scan.simps) (simp only: if_False)
qed

lemma scan_exact:
  assumes sl: "take (length n) (drop 2 opt) = n"
    and k: "k < length (entries options)" "name (options ! k) = Some n"
    and first: "\<forall>j. i \<le> j \<and> j < k \<longrightarrow> name (options ! j) \<noteq> Some n"
    and ik: "i \<le> k"
  shows "\<exists>a. long_scan options opt (length n) i index ambig = (int k, True, a)"
  using first ik
proof (induction "k - i" arbitrary: i index ambig)
  case 0
  then have "i = k" by simp
  with k sl show ?case by (simp add: long_scan_step)
next
  case (Suc d)
  then have lt: "i < k" and d: "d = k - (i + 1)" by simp_all
  from lt k have it: "i < length (entries options)" by simp
  from Suc.prems lt have ne: "name (options ! i) \<noteq> Some n" by simp
  have *: "\<exists>a. long_scan options opt (length n) (Suc i) index' ambig' = (int k, True, a)"
    for index' ambig'
    using Suc.hyps(1) [OF d] Suc.prems lt by simp
  from ne show ?case
    by (simp add: long_scan_step [OF sl it] *)
qed

lemma ex_from: "(\<exists>j. i \<le> j \<and> P j) \<longleftrightarrow> P i \<or> (\<exists>j. Suc i \<le> j \<and> P j)"
  by (metis Suc_leI le_neq_implies_less order_refl Suc_leD)

lemma scan_indexed:
  assumes sl: "take (length n) (drop 2 opt) = n"
    and ix: "0 \<le> index"
    and i: "i \<le> length (entries options)"
    and noex: "\<forall>j. i \<le> j \<and> j < length (entries options) \<longrightarrow> name (options ! j) \<noteq> Some n"
  shows "long_scan options opt (length n) i index ambig =
     (index, False,
      ambig \<or> (\<exists>j. i \<le> j \<and> j < length (entries options) \<and> abbreviates n (options ! j) \<and>
                  differs (options ! nat index) (options ! j)))"
  using i noex
proof (induction "length (entries options) - i" arbitrary: i ambig)
  case 0
  then have "i = length (entries options)" by simp
  then show ?case by (auto simp: long_scan_end)
next
  case (Suc d)
  then have it: "i < length (entries options)" and d: "d = length (entries options) - (i + 1)"
    by simp_all
  from Suc.prems it have ne: "name (options ! i) \<noteq> Some n" by simp
  have ih: "long_scan options opt (length n) (Suc i) index ambig' =
     (index, False,
      ambig' \<or> (\<exists>j. Suc i \<le> j \<and> j < length (entries options) \<and> abbreviates n (options ! j) \<and>
                  differs (options ! nat index) (options ! j)))" for ambig'
    using Suc.hyps(1) [OF d] Suc.prems it by simp
  show ?case
    apply (subst ex_from)
    using ne ix it by (auto simp: long_scan_step [OF sl it] ih)
qed

lemma scan_none:
  assumes sl: "take (length n) (drop 2 opt) = n"
    and i: "i \<le> length (entries options)"
    and none: "\<forall>j. i \<le> j \<and> j < length (entries options) \<longrightarrow> \<not> abbreviates n (options ! j)"
  shows "long_scan options opt (length n) i index ambig = (index, False, ambig)"
  using i none
proof (induction "length (entries options) - i" arbitrary: i)
  case 0
  then have "i = length (entries options)" by simp
  then show ?case by (simp add: long_scan_end)
next
  case (Suc d)
  then have it: "i < length (entries options)" and d: "d = length (entries options) - (i + 1)"
    by simp_all
  from Suc.prems it have na: "\<not> abbreviates n (options ! i)" by simp
  then have ne: "name (options ! i) \<noteq> Some n" by (auto simp: abbreviates_def)
  have "long_scan options opt (length n) (Suc i) index ambig = (index, False, ambig)"
    using Suc.hyps(1) [OF d] Suc.prems it by simp
  with na ne show ?case
    by (simp add: long_scan_step [OF sl it])
qed

lemma scan_first:
  assumes sl: "take (length n) (drop 2 opt) = n"
    and ix: "index < 0"
    and f: "f < length (entries options)" "abbreviates n (options ! f)"
    and first: "\<forall>j. i \<le> j \<and> j < f \<longrightarrow> \<not> abbreviates n (options ! j)"
    and noex: "\<forall>j. i \<le> j \<and> j < length (entries options) \<longrightarrow> name (options ! j) \<noteq> Some n"
    and i: "i \<le> f"
  shows "long_scan options opt (length n) i index ambig =
     (int f, False,
      ambig \<or> (\<exists>j. Suc f \<le> j \<and> j < length (entries options) \<and> abbreviates n (options ! j) \<and>
                  differs (options ! f) (options ! j)))"
  using first noex i
proof (induction "f - i" arbitrary: i)
  case 0
  then have e: "i = f" by simp
  from 0 e f have ne: "name (options ! f) \<noteq> Some n" by simp
  have "long_scan options opt (length n) (Suc f) (int f) ambig =
     (int f, False,
      ambig \<or> (\<exists>j. Suc f \<le> j \<and> j < length (entries options) \<and> abbreviates n (options ! j) \<and>
                  differs (options ! nat (int f)) (options ! j)))"
    using 0 e f by (intro scan_indexed [OF sl]) auto
  with ne f ix e show ?case
    by (simp add: long_scan_step [OF sl f(1)])
next
  case (Suc d)
  then have lt: "i < f" and d: "d = f - (i + 1)" by simp_all
  from lt f have it: "i < length (entries options)" by simp
  from Suc.prems lt have na: "\<not> abbreviates n (options ! i)" by simp
  then have ne: "name (options ! i) \<noteq> Some n" by (auto simp: abbreviates_def)
  have "long_scan options opt (length n) (Suc i) index ambig =
     (int f, False,
      ambig \<or> (\<exists>j. Suc f \<le> j \<and> j < length (entries options) \<and> abbreviates n (options ! j) \<and>
                  differs (options ! f) (options ! j)))"
    using Suc.hyps(1) [OF d] Suc.prems lt by simp
  with na ne show ?case
    by (simp add: long_scan_step [OF sl it])
qed

lemma parse_long_exact:
  assumes nm: "option_name n"
    and k: "k < length (entries options)" "name (options ! k) = Some n"
    and first: "\<forall>j<k. name (options ! j) \<noteq> Some n"
  shows "parse_long_option h ap (long_token n v) arg options argind =
           long_finish h ap (long_token n v) (length n) arg (options ! k) argind"
proof -
  from first have "\<forall>j. 0 \<le> j \<and> j < k \<longrightarrow> name (options ! j) \<noteq> Some n" by simp
  from scan_exact [OF slice_token k this, of v "-1" False]
  obtain a where "long_scan options (long_token n v) (length n) 0 (-1) False = (int k, True, a)"
    by auto
  then show ?thesis
    by (simp add: parse_long_option_def name_len_token [OF nm])
qed

section \<open>The claims\<close>

text \<open>
  C1. Exact match wins. Let the name slice \<open>n\<close> of a long-option token (\<open>--n\<close> or \<open>--n=value\<close>)
  be the name of an entry of the table, and \<open>k\<close> the first such entry. Then the lookup loop,
  started at any position up to \<open>k\<close> with any candidate \<open>index\<close> and any ambiguity flag,
  ends at \<open>k\<close> with \<open>exact\<close> set, whatever entries follow; \<^verbatim>\<open>parse_long_option\<close> goes on with
  entry \<open>k\<close>. With the table \<open>foo\<close>, \<open>foobar\<close> (in either order), \<open>--foo\<close> gives the record of
  \<open>foo\<close>.
\<close>

theorem exact_match_wins:
  assumes nm: "option_name n"
    and k: "k < length (entries options)" "name (options ! k) = Some n"
    and first: "\<forall>j<k. name (options ! j) \<noteq> Some n"
  shows "(\<forall>i index ambig. i \<le> k \<longrightarrow>
            (\<exists>a. long_scan options (long_token n v) (name_len (long_token n v) 0) i index ambig
                   = (int k, True, a))) \<and>
         parse_long_option h ap (long_token n v) arg options argind =
           long_finish h ap (long_token n v) (length n) arg (options ! k) argind \<and>
         ap_init no_failure (Some [prog, ''--foo''])
           (Some [\<lparr>code = 1, name = Some ''foo'', has_arg = ap_no, tag = 0\<rparr>,
                  \<lparr>code = 2, name = Some ''foobar'', has_arg = ap_no, tag = 0\<rparr>,
                  non_option]) in_order =
           Some (True, append_record ap_empty
                   (long_record \<lparr>code = 1, name = Some ''foo'', has_arg = ap_no, tag = 0\<rparr> [])) \<and>
         ap_init no_failure (Some [prog, ''--foo''])
           (Some [\<lparr>code = 2, name = Some ''foobar'', has_arg = ap_no, tag = 0\<rparr>,
                  \<lparr>code = 1, name = Some ''foo'', has_arg = ap_no, tag = 0\<rparr>,
                  non_option]) in_order =
           Some (True, append_record ap_empty
                   (long_record \<lparr>code = 1, name = Some ''foo'', has_arg = ap_no, tag = 0\<rparr> []))"
proof (intro conjI allI impI)
  fix i index ambig
  assume "i \<le> k"
  moreover from first have "\<forall>j. i \<le> j \<and> j < k \<longrightarrow> name (options ! j) \<noteq> Some n" by simp
  ultimately show "\<exists>a. long_scan options (long_token n v) (name_len (long_token n v) 0) i index ambig
                   = (int k, True, a)"
    using scan_exact [OF slice_token k, of i v index ambig]
    by (simp add: name_len_token [OF nm])
next
  show "parse_long_option h ap (long_token n v) arg options argind =
           long_finish h ap (long_token n v) (length n) arg (options ! k) argind"
    using nm k first by (rule parse_long_exact)
next
  show "ap_init no_failure (Some [prog, ''--foo''])
           (Some [\<lparr>code = 1, name = Some ''foo'', has_arg = ap_no, tag = 0\<rparr>,
                  \<lparr>code = 2, name = Some ''foobar'', has_arg = ap_no, tag = 0\<rparr>,
                  non_option]) in_order =
           Some (True, append_record ap_empty
                   (long_record \<lparr>code = 1, name = Some ''foo'', has_arg = ap_no, tag = 0\<rparr> []))"
    by code_simp
next
  show "ap_init no_failure (Some [prog, ''--foo''])
           (Some [\<lparr>code = 2, name = Some ''foobar'', has_arg = ap_no, tag = 0\<rparr>,
                  \<lparr>code = 1, name = Some ''foo'', has_arg = ap_no, tag = 0\<rparr>,
                  non_option]) in_order =
           Some (True, append_record ap_empty
                   (long_record \<lparr>code = 1, name = Some ''foo'', has_arg = ap_no, tag = 0\<rparr> []))"
    by code_simp
qed

theorem exact_match_wins_witness:
  "option_name ''foo'' \<and>
   (1::nat) < length (entries [\<lparr>code = 2, name = Some ''foobar'', has_arg = ap_no, tag = 0\<rparr>,
                  \<lparr>code = 1, name = Some ''foo'', has_arg = ap_no, tag = 0\<rparr>, non_option]) \<and>
   parse_long_option no_failure ap_empty (long_token ''foo'' None) None
     [\<lparr>code = 2, name = Some ''foobar'', has_arg = ap_no, tag = 0\<rparr>,
      \<lparr>code = 1, name = Some ''foo'', has_arg = ap_no, tag = 0\<rparr>, non_option] 1 =
   long_finish no_failure ap_empty (long_token ''foo'' None) (length ''foo'') None
     \<lparr>code = 1, name = Some ''foo'', has_arg = ap_no, tag = 0\<rparr> 1"
proof -
  let ?t = "[\<lparr>code = 2, name = Some ''foobar'', has_arg = ap_no, tag = 0\<rparr>,
             \<lparr>code = 1, name = Some ''foo'', has_arg = ap_no, tag = 0\<rparr>, non_option]"
  have h1: "option_name ''foo''"
    by (simp add: option_name_def NUL_def)
  have h2: "(1::nat) < length (entries ?t)"
    by (simp add: entries_def non_option_def)
  have h3: "name (?t ! 1) = Some ''foo''"
    by simp
  have h4: "\<forall>j<1. name (?t ! j) \<noteq> Some ''foo''"
    by simp
  from exact_match_wins [OF h1 h2 h3 h4, of None no_failure ap_empty None 1] h1 h2
  show ?thesis by simp
qed

lemma parse_long_ambiguous:
  assumes nm: "option_name n"
    and noex: "\<forall>j<length (entries options). name (options ! j) \<noteq> Some n"
    and i: "i < length (entries options)" "abbreviates n (options ! i)"
    and j: "j < length (entries options)" "abbreviates n (options ! j)"
    and d: "differs (options ! i) (options ! j)"
  shows "parse_long_option h ap (long_token n v) arg options argind =
     (case add_errors h ap (''option '' @ [CHR 0x27]) (long_token n v)
             ([CHR 0x27] @ '' is ambiguous'')
        of (h', ap') \<Rightarrow> (True, h', ap', argind))"
proof -
  let ?C = "\<lambda>j. j < length (entries options) \<and> abbreviates n (options ! j)"
  define f where "f = (LEAST j. ?C j)"
  from i have Cf: "?C f" unfolding f_def by (rule_tac LeastI [of ?C i]) simp
  have least: "\<And>j. ?C j \<Longrightarrow> f \<le> j" unfolding f_def by (rule Least_le)
  then have first: "\<forall>j. 0 \<le> j \<and> j < f \<longrightarrow> \<not> abbreviates n (options ! j)"
    using Cf by (metis leD less_trans)
  from noex have noex': "\<forall>j. 0 \<le> j \<and> j < length (entries options) \<longrightarrow> name (options ! j) \<noteq> Some n"
    by simp
  from d have "differs (options ! f) (options ! i) \<or> differs (options ! f) (options ! j)"
    by (auto simp: differs_def)
  then obtain m where m: "?C m" "differs (options ! f) (options ! m)"
    using i j by blast
  then have "m \<noteq> f" by (auto simp: differs_def)
  with least [OF m(1)] have "Suc f \<le> m" by simp
  with m have amb: "\<exists>j. Suc f \<le> j \<and> j < length (entries options) \<and> abbreviates n (options ! j) \<and>
                  differs (options ! f) (options ! j)"
    by blast
  have "long_scan options (long_token n v) (length n) 0 (-1) False =
     (int f, False,
      False \<or> (\<exists>j. Suc f \<le> j \<and> j < length (entries options) \<and> abbreviates n (options ! j) \<and>
                  differs (options ! f) (options ! j)))"
    by (rule scan_first [OF slice_token]) (use Cf first noex' in simp_all)
  with amb have "long_scan options (long_token n v) (length n) 0 (-1) False = (int f, False, True)"
    by simp
  then show ?thesis
    by (simp add: parse_long_option_def name_len_token [OF nm])
qed

lemma parse_long_alias:
  assumes nm: "option_name n"
    and noex: "\<forall>j<length (entries options). name (options ! j) \<noteq> Some n"
    and f: "f < length (entries options)" "abbreviates n (options ! f)"
    and first: "\<forall>j<f. \<not> abbreviates n (options ! j)"
    and same: "\<forall>j<length (entries options).
                 abbreviates n (options ! j) \<longrightarrow> \<not> differs (options ! f) (options ! j)"
  shows "parse_long_option h ap (long_token n v) arg options argind =
           long_finish h ap (long_token n v) (length n) arg (options ! f) argind"
proof -
  from first have first': "\<forall>j. 0 \<le> j \<and> j < f \<longrightarrow> \<not> abbreviates n (options ! j)" by simp
  from noex have noex': "\<forall>j. 0 \<le> j \<and> j < length (entries options) \<longrightarrow> name (options ! j) \<noteq> Some n"
    by simp
  from same have "\<not> (\<exists>j. Suc f \<le> j \<and> j < length (entries options) \<and> abbreviates n (options ! j) \<and>
                  differs (options ! f) (options ! j))"
    by blast
  moreover have "long_scan options (long_token n v) (length n) 0 (-1) False =
     (int f, False,
      False \<or> (\<exists>j. Suc f \<le> j \<and> j < length (entries options) \<and> abbreviates n (options ! j) \<and>
                  differs (options ! f) (options ! j)))"
    by (rule scan_first [OF slice_token]) (use f first' noex' in simp_all)
  ultimately have "long_scan options (long_token n v) (length n) 0 (-1) False = (int f, False, False)"
    by simp
  then show ?thesis
    by (simp add: parse_long_option_def name_len_token [OF nm])
qed


text \<open>
  C2. Ambiguous abbreviations. Let no entry of the table have the name slice \<open>n\<close> as its
  name. If \<open>n\<close> is a prefix of the names of two entries that differ in \<open>code\<close> or \<open>has_arg\<close>,
  \<^verbatim>\<open>parse_long_option\<close> stores no record, leaves \<open>argind\<close> alone and composes the message
  \<open>option '<token>' is ambiguous\<close>. If every entry that \<open>n\<close> abbreviates agrees in \<open>code\<close> and
  \<open>has_arg\<close> with the first of them, the parse goes on with that first entry. With the table
  \<open>verbose\<close>, \<open>version\<close>, \<open>--ver\<close> is ambiguous and \<open>--verb\<close> gives the record of \<open>verbose\<close>.
\<close>

theorem ambiguous_abbreviation:
  assumes nm: "option_name n"
    and noex: "\<forall>j<length (entries options). name (options ! j) \<noteq> Some n"
  shows "(\<forall>i j. i < length (entries options) \<and> abbreviates n (options ! i) \<and>
                j < length (entries options) \<and> abbreviates n (options ! j) \<and>
                differs (options ! i) (options ! j) \<longrightarrow>
            parse_long_option h ap (long_token n v) arg options argind =
              (case add_errors h ap (''option '' @ [CHR 0x27]) (long_token n v)
                      ([CHR 0x27] @ '' is ambiguous'')
                 of (h', ap') \<Rightarrow> (True, h', ap', argind)) \<and>
            (error ap = None \<and> error_size ap = 0 \<longrightarrow>
               parse_long_option no_failure ap (long_token n v) arg options argind =
                 (True, no_failure,
                  with_error ap (''option '' @ [CHR 0x27] @ long_token n v @ [CHR 0x27] @
                                 '' is ambiguous''),
                  argind))) \<and>
         (\<forall>f. f < length (entries options) \<and> abbreviates n (options ! f) \<and>
              (\<forall>j<f. \<not> abbreviates n (options ! j)) \<and>
              (\<forall>j<length (entries options).
                 abbreviates n (options ! j) \<longrightarrow> \<not> differs (options ! f) (options ! j)) \<longrightarrow>
            parse_long_option h ap (long_token n v) arg options argind =
              long_finish h ap (long_token n v) (length n) arg (options ! f) argind) \<and>
         ap_init no_failure (Some [prog, ''--ver''])
           (Some [\<lparr>code = 1, name = Some ''verbose'', has_arg = ap_no, tag = 0\<rparr>,
                  \<lparr>code = 2, name = Some ''version'', has_arg = ap_no, tag = 0\<rparr>,
                  non_option]) in_order =
           Some (True, with_error ap_empty
                   (''option '' @ [CHR 0x27] @ ''--ver'' @ [CHR 0x27] @ '' is ambiguous'')) \<and>
         ap_init no_failure (Some [prog, ''--verb''])
           (Some [\<lparr>code = 1, name = Some ''verbose'', has_arg = ap_no, tag = 0\<rparr>,
                  \<lparr>code = 2, name = Some ''version'', has_arg = ap_no, tag = 0\<rparr>,
                  non_option]) in_order =
           Some (True, append_record ap_empty
                   (long_record \<lparr>code = 1, name = Some ''verbose'', has_arg = ap_no, tag = 0\<rparr>
                      []))"
proof (intro conjI allI impI)
  fix i j
  assume a: "i < length (entries options) \<and> abbreviates n (options ! i) \<and>
             j < length (entries options) \<and> abbreviates n (options ! j) \<and>
             differs (options ! i) (options ! j)"
  then show "parse_long_option h ap (long_token n v) arg options argind =
              (case add_errors h ap (''option '' @ [CHR 0x27]) (long_token n v)
                      ([CHR 0x27] @ '' is ambiguous'')
                 of (h', ap') \<Rightarrow> (True, h', ap', argind))"
    using parse_long_ambiguous [OF nm noex, of i j] by blast
  assume "error ap = None \<and> error_size ap = 0"
  with a show "parse_long_option no_failure ap (long_token n v) arg options argind =
                 (True, no_failure,
                  with_error ap (''option '' @ [CHR 0x27] @ long_token n v @ [CHR 0x27] @
                                 '' is ambiguous''),
                  argind)"
    using parse_long_ambiguous [OF nm noex, of i j no_failure ap v arg argind]
    by (simp add: add_errors_no_failure)
next
  fix f
  assume "f < length (entries options) \<and> abbreviates n (options ! f) \<and>
              (\<forall>j<f. \<not> abbreviates n (options ! j)) \<and>
              (\<forall>j<length (entries options).
                 abbreviates n (options ! j) \<longrightarrow> \<not> differs (options ! f) (options ! j))"
  then show "parse_long_option h ap (long_token n v) arg options argind =
              long_finish h ap (long_token n v) (length n) arg (options ! f) argind"
    using parse_long_alias [OF nm noex, of f] by blast
next
  show "ap_init no_failure (Some [prog, ''--ver''])
           (Some [\<lparr>code = 1, name = Some ''verbose'', has_arg = ap_no, tag = 0\<rparr>,
                  \<lparr>code = 2, name = Some ''version'', has_arg = ap_no, tag = 0\<rparr>,
                  non_option]) in_order =
           Some (True, with_error ap_empty
                   (''option '' @ [CHR 0x27] @ ''--ver'' @ [CHR 0x27] @ '' is ambiguous''))"
    by code_simp
next
  show "ap_init no_failure (Some [prog, ''--verb''])
           (Some [\<lparr>code = 1, name = Some ''verbose'', has_arg = ap_no, tag = 0\<rparr>,
                  \<lparr>code = 2, name = Some ''version'', has_arg = ap_no, tag = 0\<rparr>,
                  non_option]) in_order =
           Some (True, append_record ap_empty
                   (long_record \<lparr>code = 1, name = Some ''verbose'', has_arg = ap_no, tag = 0\<rparr>
                      []))"
    by code_simp
qed

theorem ambiguous_abbreviation_witness:
  "option_name ''ver'' \<and>
   abbreviates ''ver'' \<lparr>code = 1, name = Some ''verbose'', has_arg = ap_no, tag = 0\<rparr> \<and>
   abbreviates ''ver'' \<lparr>code = 2, name = Some ''version'', has_arg = ap_no, tag = 0\<rparr> \<and>
   differs \<lparr>code = 1, name = Some ''verbose'', has_arg = ap_no, tag = 0\<rparr>
           \<lparr>code = 2, name = Some ''version'', has_arg = ap_no, tag = 0\<rparr> \<and>
   parse_long_option no_failure ap_empty (long_token ''ver'' None) None
     [\<lparr>code = 1, name = Some ''verbose'', has_arg = ap_no, tag = 0\<rparr>,
      \<lparr>code = 2, name = Some ''version'', has_arg = ap_no, tag = 0\<rparr>, non_option] 1 =
     (True, no_failure,
      with_error ap_empty (''option '' @ [CHR 0x27] @ long_token ''ver'' None @ [CHR 0x27] @
                           '' is ambiguous''), 1)"
proof -
  let ?t = "[\<lparr>code = 1, name = Some ''verbose'', has_arg = ap_no, tag = 0\<rparr>,
             \<lparr>code = 2, name = Some ''version'', has_arg = ap_no, tag = 0\<rparr>, non_option]"
  have h1: "option_name ''ver''"
    by (simp add: option_name_def NUL_def)
  have len: "length (entries ?t) = 2"
    by (simp add: entries_def non_option_def)
  have h2: "\<forall>j<length (entries ?t). name (?t ! j) \<noteq> Some ''ver''"
    by (simp add: len less_Suc_eq numeral_2_eq_2)
  have h3: "abbreviates ''ver'' (?t ! 0) \<and> abbreviates ''ver'' (?t ! 1) \<and>
            differs (?t ! 0) (?t ! 1)"
    by (simp add: abbreviates_def differs_def)
  have h4: "error ap_empty = None \<and> error_size ap_empty = 0"
    by (simp add: ap_empty_def)
  from ambiguous_abbreviation [OF h1 h2, of no_failure ap_empty None None 1] h3 h4 len
  have "parse_long_option no_failure ap_empty (long_token ''ver'' None) None ?t 1 =
     (True, no_failure,
      with_error ap_empty (''option '' @ [CHR 0x27] @ long_token ''ver'' None @ [CHR 0x27] @
                           '' is ambiguous''), 1)"
    by (metis one_less_numeral_iff semiring_norm(76) zero_less_numeral)
  with h1 h3 show ?thesis by simp
qed

lemma short_loop_0: "short_loop h ap opt arg options argind 0 = (True, h, ap, argind)"
  by (subst short_loop.simps) (simp add: short_body_def Let_def)

lemma short_attached:
  assumes "0 < cind" "cnth opt cind \<noteq> NUL" "short_find options (cnth opt cind) 0 = int k"
    and "has_arg (options ! k) \<noteq> ap_no" "cnth opt (cind + 1) \<noteq> NUL"
  shows "short_loop no_failure ap opt arg options argind cind =
     (True, no_failure,
      append_record ap (short_record (options ! k) (drop (cind + 1) opt)), argind + 1)"
  using assms
  by (subst short_loop.simps) (simp add: short_body_def Let_def push_no_failure short_loop_0)

lemma short_flag_continue:
  assumes "0 < cind" "cnth opt cind \<noteq> NUL" "short_find options (cnth opt cind) 0 = int k"
    and "has_arg (options ! k) = ap_no" "cnth opt (cind + 1) \<noteq> NUL"
  shows "short_loop no_failure ap opt arg options argind cind =
     short_loop no_failure (append_record ap (short_record (options ! k) [])) opt arg options
       argind (cind + 1)"
  using assms
  by (subst short_loop.simps) (simp add: short_body_def Let_def push_no_failure)

lemma short_flag_last:
  assumes "0 < cind" "cnth opt cind \<noteq> NUL" "short_find options (cnth opt cind) 0 = int k"
    and "has_arg (options ! k) = ap_no" "cnth opt (cind + 1) = NUL"
  shows "short_loop no_failure ap opt arg options argind cind =
     (True, no_failure, append_record ap (short_record (options ! k) []), argind + 1)"
  using assms
  by (subst short_loop.simps) (simp add: short_body_def Let_def push_no_failure short_loop_0)

lemma short_separate:
  assumes "0 < cind" "cnth opt cind \<noteq> NUL" "short_find options (cnth opt cind) 0 = int k"
    and "has_arg (options ! k) = ap_yes" "cnth opt (cind + 1) = NUL" "cnth a 0 \<noteq> NUL"
  shows "short_loop no_failure ap opt (Some a) options argind cind =
     (True, no_failure, append_record ap (short_record (options ! k) a), argind + 2)"
  using assms
  by (subst short_loop.simps) (simp add: short_body_def Let_def push_no_failure short_loop_0)

lemma short_missing:
  assumes "0 < cind" "cnth opt cind \<noteq> NUL" "short_find options (cnth opt cind) 0 = int k"
    and "has_arg (options ! k) = ap_yes" "cnth opt (cind + 1) = NUL"
    and "arg = None \<or> arg = Some []"
  shows "short_loop h ap opt arg options argind cind =
     (case add_errors2 h ap ''option requires an argument -- '' [cnth opt cind]
        of (h', ap') \<Rightarrow> (True, h', ap', argind + 1))"
  using assms
  by (subst short_loop.simps) (auto simp: short_body_def Let_def code_str_def split: prod.split)

lemma short_invalid:
  assumes "0 < cind" "short_find options (cnth opt cind) 0 < 0"
  shows "short_loop h ap opt arg options argind cind =
     (case add_errors2 h ap ''invalid option -- '' (code_str (cnth opt cind))
        of (h', ap') \<Rightarrow> (True, h', ap', argind))"
  using assms
  by (subst short_loop.simps) (auto simp: short_body_def Let_def split: prod.split)

lemma long_missing_eq:
  assumes "has_arg ent = ap_yes"
  shows "long_finish h ap (long_token n (Some [])) (length n) arg ent argind =
     (case add_errors h ap (''option '' @ [CHR 0x27] @ ''--'') (name_of ent)
             ([CHR 0x27] @ '' requires an argument'')
        of (h', ap') \<Rightarrow> (True, h', ap', argind + 1))"
proof -
  have "cnth (long_token n (Some [])) (length n + 3) = NUL"
    by (simp add: long_token_def cnth_def)
  moreover have "cnth (long_token n (Some [])) (length n + 2) \<noteq> NUL"
    using cnth_token_end [of n "Some []"] by (simp add: NUL_def)
  ultimately show ?thesis
    using assms by (simp add: long_finish_def)
qed

lemma long_missing_next:
  assumes "has_arg ent = ap_yes" "arg = None \<or> arg = Some []"
  shows "long_finish h ap (long_token n None) (length n) arg ent argind =
     (case add_errors h ap (''option '' @ [CHR 0x27] @ ''--'') (name_of ent)
             ([CHR 0x27] @ '' requires an argument'')
        of (h', ap') \<Rightarrow> (True, h', ap', argind + 1))"
proof -
  have "cnth (long_token n None) (length n + 2) = NUL"
    using cnth_token_end [of n None] by simp
  then show ?thesis
    using assms by (auto simp: long_finish_def)
qed

lemma looks_like_option_iff:
  "(let ch1 = cnth tok 0; ch2 = (if ch1 \<noteq> NUL then cnth tok 1 else NUL)
    in P (ch1 = CHR ''-'' \<and> ch2 \<noteq> NUL) ch2) =
   P (looks_like_option tok) (if cnth tok 0 \<noteq> NUL then cnth tok 1 else NUL)"
  by (auto simp: looks_like_option_def Let_def NUL_def)

lemma scan_end:
  "\<not> argind < length argv \<Longrightarrow>
   ap_scan argv options in_order h ap non_options argind = Some (Inr (h, ap, non_options, argind))"
  by (subst ap_scan.simps) simp

lemma scan_operand_deferred:
  assumes "argind < length argv" "\<not> looks_like_option (argv ! argind)"
  shows "ap_scan argv options False no_failure ap non_options argind =
         ap_scan argv options False no_failure ap (non_options @ [argv ! argind]) (Suc argind)"
  using assms
  by (subst ap_scan.simps) (auto simp: scan_body_def looks_like_option_def Let_def NUL_def)

lemma scan_operand_in_place:
  assumes "argind < length argv" "\<not> looks_like_option (argv ! argind)"
  shows "ap_scan argv options True no_failure ap non_options argind =
         ap_scan argv options True no_failure (append_record ap (operand (argv ! argind)))
           non_options (Suc argind)"
  using assms
  by (subst ap_scan.simps)
     (auto simp: scan_body_def looks_like_option_def Let_def NUL_def push_no_failure operand_short)


lemma is_terminator_dashes [simp]: "is_terminator ''--''"
  by (simp add: is_terminator_def looks_like_option_def cnth_def NUL_def)

lemma scan_option:
  assumes "argind < length argv" "looks_like_option (argv ! argind)"
    and "\<not> is_terminator (argv ! argind)"
  shows "ap_scan argv options in_order h ap non_options argind =
     (case (if cnth (argv ! argind) 1 = CHR ''-''
            then parse_long_option h ap (argv ! argind) (next_arg argv argind) options argind
            else parse_short_option h ap (argv ! argind) (next_arg argv argind) options argind)
      of (r, h', ap', argind') \<Rightarrow>
        if \<not> r then Some (Inl ap')
        else if error ap' \<noteq> None then Some (Inr (h', ap', non_options, argind'))
        else ap_scan argv options in_order h' ap' non_options argind')"
proof -
  let ?t = "argv ! argind"
  from assms(2) have c: "cnth ?t 0 = CHR ''-''" "cnth ?t 1 \<noteq> NUL"
    by (simp_all add: looks_like_option_def)
  from assms(2,3) have "\<not> (cnth ?t 1 = CHR ''-'' \<and> cnth ?t 2 = NUL)"
    by (simp add: is_terminator_def)
  with c assms(1) show ?thesis
    by (subst ap_scan.simps) (simp add: scan_body_def Let_def NUL_def next_arg_def split: prod.split)
qed

lemma push_operands_no_failure:
  "push_operands no_failure ap xs =
     Inr (no_failure,
          ap\<lparr>data := (if xs = [] then data ap else Some (records ap @ map operand xs)),
             data_size := data_size ap + int (length xs)\<rparr>)"
proof (induction xs arbitrary: ap)
  case Nil
  show ?case by simp
next
  case (Cons x xs)
  show ?case
    by (simp add: push_no_failure operand_short Cons append_record_def records_def)
qed

text \<open>
  C3. Reorder mode. Let \<open>-v\<close> be an option of the table that takes no argument, and the
  command line be \<open>file1 -v file2\<close> after the program name. With reordering (\<open>in_order\<close> is 0)
  the records are \<open>-v\<close>, \<open>file1\<close>, \<open>file2\<close>; without it (\<open>in_order\<close> is not 0) they are \<open>file1\<close>,
  \<open>-v\<close>, \<open>file2\<close>. In both modes the scan goes on with the next token after an operand, so
  a later option is still looked up.
\<close>

theorem reorder_modes:
  assumes v: "short_find options (CHR ''v'') 0 = int k" "has_arg (options ! k) = ap_no"
  shows "ap_init no_failure (Some [prog, ''file1'', ''-v'', ''file2'']) (Some options) False =
           Some (True, \<lparr>data = Some [short_record (options ! k) [], operand ''file1'',
                                      operand ''file2''],
                        data_size = 3, error = None, error_size = 0\<rparr>) \<and>
         ap_init no_failure (Some [prog, ''file1'', ''-v'', ''file2'']) (Some options) True =
           Some (True, \<lparr>data = Some [operand ''file1'', short_record (options ! k) [],
                                      operand ''file2''],
                        data_size = 3, error = None, error_size = 0\<rparr>) \<and>
         (\<forall>argv argind ap non_options.
            argind < length argv \<and> \<not> looks_like_option (argv ! argind) \<longrightarrow>
              ap_scan argv options False no_failure ap non_options argind =
              ap_scan argv options False no_failure ap (non_options @ [argv ! argind])
                (Suc argind) \<and>
              ap_scan argv options True no_failure ap non_options argind =
              ap_scan argv options True no_failure (append_record ap (operand (argv ! argind)))
                non_options (Suc argind))"
proof -
  let ?argv = "[prog, ''file1'', ''-v'', ''file2'']"
  have s: "parse_short_option no_failure ap ''-v'' arg options argind =
             (True, no_failure, append_record ap (short_record (options ! k) []), Suc argind)"
    for ap arg argind
    unfolding parse_short_option_def
    using short_flag_last [where cind = 1 and opt = "''-v''" and options = options and k = k
        and ap = ap and arg = arg and argind = argind] v
    by (simp add: NUL_def)
  have f1: "\<not> looks_like_option ''file1''" and f2: "\<not> looks_like_option ''file2''"
    and o: "looks_like_option ''-v''" and t: "\<not> is_terminator ''-v''"
    by (simp_all add: looks_like_option_def is_terminator_def NUL_def)
  have e: "error (append_record ap r) = error ap" for ap r
    by (simp add: append_record_def)
  have "ap_scan ?argv options False no_failure ap_empty [] (Suc 0) =
          Some (Inr (no_failure, append_record ap_empty (short_record (options ! k) []),
                     [''file1'', ''file2''], Suc (Suc (Suc (Suc 0)))))"
    apply (subst scan_operand_deferred, simp, simp add: f1)
    apply (subst scan_option, simp, simp add: o, simp add: t)
    apply (simp add: s e ap_empty_def)
    apply (subst scan_operand_deferred, simp, simp add: f2)
    apply (subst scan_end, simp)
    apply simp
    done
  then have a: "ap_init no_failure (Some ?argv) (Some options) False =
           Some (True, \<lparr>data = Some [short_record (options ! k) [], operand ''file1'',
                                      operand ''file2''],
                        data_size = 3, error = None, error_size = 0\<rparr>)"
    by (simp add: ap_init_def ap_finish_def append_record_def ap_empty_def
          push_operands_no_failure records_def)
  have "ap_scan ?argv options True no_failure ap_empty [] (Suc 0) =
          Some (Inr (no_failure,
                     append_record
                       (append_record (append_record ap_empty (operand ''file1''))
                          (short_record (options ! k) [])) (operand ''file2''),
                     [], Suc (Suc (Suc (Suc 0)))))"
    apply (subst scan_operand_in_place, simp, simp add: f1)
    apply (subst scan_option, simp, simp add: o, simp add: t)
    apply (simp add: s e ap_empty_def)
    apply (subst scan_operand_in_place, simp, simp add: f2)
    apply (subst scan_end, simp)
    apply simp
    done
  then have b: "ap_init no_failure (Some ?argv) (Some options) True =
           Some (True, \<lparr>data = Some [operand ''file1'', short_record (options ! k) [],
                                      operand ''file2''],
                        data_size = 3, error = None, error_size = 0\<rparr>)"
    by (simp add: ap_init_def ap_finish_def append_record_def ap_empty_def
          push_operands_no_failure records_def)
  from a b show ?thesis
    by (simp add: scan_operand_deferred scan_operand_in_place)
qed

theorem reorder_modes_witness:
  "short_find [\<lparr>code = 118, name = Some ''verbose'', has_arg = ap_no, tag = 0\<rparr>, non_option]
     (CHR ''v'') 0 = 0 \<and>
   ap_init no_failure (Some [''prog'', ''file1'', ''-v'', ''file2''])
     (Some [\<lparr>code = 118, name = Some ''verbose'', has_arg = ap_no, tag = 0\<rparr>, non_option])
     False =
     Some (True,
           \<lparr>data = Some [short_record
                           \<lparr>code = 118, name = Some ''verbose'', has_arg = ap_no, tag = 0\<rparr> [],
                         operand ''file1'', operand ''file2''],
              data_size = 3, error = None, error_size = 0\<rparr>) \<and>
   ap_init no_failure (Some [''prog'', ''file1'', ''-v'', ''file2''])
     (Some [\<lparr>code = 118, name = Some ''verbose'', has_arg = ap_no, tag = 0\<rparr>, non_option])
     True =
     Some (True,
           \<lparr>data = Some [operand ''file1'',
                         short_record
                           \<lparr>code = 118, name = Some ''verbose'', has_arg = ap_no, tag = 0\<rparr> [],
                         operand ''file2''],
              data_size = 3, error = None, error_size = 0\<rparr>)"
proof -
  let ?t = "[\<lparr>code = 118, name = Some ''verbose'', has_arg = ap_no, tag = 0\<rparr>, non_option]"
  have h1: "short_find ?t (CHR ''v'') 0 = int 0"
    by code_simp
  have h2: "has_arg (?t ! 0) = ap_no"
    by simp
  from reorder_modes [OF h1 h2, of "''prog''"] h1 show ?thesis
    by simp
qed

text \<open>
  C5. Short-option clusters. Let the character at position \<open>cind\<close> of the cluster be the code
  of entry \<open>k\<close>. If the entry takes an argument and the cluster goes on, the rest of the
  cluster is stored as the argument, the token is consumed and the loop ends. If the entry
  takes no argument, a record with the empty argument is stored; the loop goes on with the
  next character if there is one, and ends with the token consumed otherwise. The token
  \<open>-abcVALUE\<close>, with \<open>a\<close> and \<open>b\<close> taking no argument and \<open>c\<close> requiring one, gives the three
  records (\<open>a\<close>, empty), (\<open>b\<close>, empty), (\<open>c\<close>, \<open>VALUE\<close>).
\<close>

theorem short_cluster:
  assumes "0 < cind" "cnth opt cind \<noteq> NUL" "short_find options (cnth opt cind) 0 = int k"
  shows "(has_arg (options ! k) \<noteq> ap_no \<and> cnth opt (cind + 1) \<noteq> NUL \<longrightarrow>
            short_loop no_failure ap opt arg options argind cind =
              (True, no_failure,
               append_record ap (short_record (options ! k) (drop (cind + 1) opt)),
               argind + 1)) \<and>
         (has_arg (options ! k) = ap_no \<and> cnth opt (cind + 1) \<noteq> NUL \<longrightarrow>
            short_loop no_failure ap opt arg options argind cind =
              short_loop no_failure (append_record ap (short_record (options ! k) []))
                opt arg options argind (cind + 1)) \<and>
         (has_arg (options ! k) = ap_no \<and> cnth opt (cind + 1) = NUL \<longrightarrow>
            short_loop no_failure ap opt arg options argind cind =
              (True, no_failure, append_record ap (short_record (options ! k) []),
               argind + 1)) \<and>
         ap_init no_failure (Some [prog, ''-abcVALUE''])
           (Some [\<lparr>code = 97, name = None, has_arg = ap_no, tag = 0\<rparr>,
                  \<lparr>code = 98, name = None, has_arg = ap_no, tag = 0\<rparr>,
                  \<lparr>code = 99, name = None, has_arg = ap_yes, tag = 0\<rparr>,
                  non_option]) in_order =
           Some (True,
                 \<lparr>data = Some
                    [\<lparr>option = \<lparr>code = 97, name = None, has_arg = ap_no, tag = 0\<rparr>,
                        argument = [], opt_string = ''-a''\<rparr>,
                     \<lparr>option = \<lparr>code = 98, name = None, has_arg = ap_no, tag = 0\<rparr>,
                        argument = [], opt_string = ''-b''\<rparr>,
                     \<lparr>option = \<lparr>code = 99, name = None, has_arg = ap_yes, tag = 0\<rparr>,
                        argument = ''VALUE'', opt_string = ''-c''\<rparr>],
                    data_size = 3, error = None, error_size = 0\<rparr>)"
proof (intro conjI impI)
  assume "has_arg (options ! k) \<noteq> ap_no \<and> cnth opt (cind + 1) \<noteq> NUL"
  with assms show "short_loop no_failure ap opt arg options argind cind =
              (True, no_failure,
               append_record ap (short_record (options ! k) (drop (cind + 1) opt)),
               argind + 1)"
    by (intro short_attached) simp_all
next
  assume "has_arg (options ! k) = ap_no \<and> cnth opt (cind + 1) \<noteq> NUL"
  with assms show "short_loop no_failure ap opt arg options argind cind =
              short_loop no_failure (append_record ap (short_record (options ! k) []))
                opt arg options argind (cind + 1)"
    by (intro short_flag_continue) simp_all
next
  assume "has_arg (options ! k) = ap_no \<and> cnth opt (cind + 1) = NUL"
  with assms show "short_loop no_failure ap opt arg options argind cind =
              (True, no_failure, append_record ap (short_record (options ! k) []),
               argind + 1)"
    by (intro short_flag_last) simp_all
next
  show "ap_init no_failure (Some [prog, ''-abcVALUE''])
           (Some [\<lparr>code = 97, name = None, has_arg = ap_no, tag = 0\<rparr>,
                  \<lparr>code = 98, name = None, has_arg = ap_no, tag = 0\<rparr>,
                  \<lparr>code = 99, name = None, has_arg = ap_yes, tag = 0\<rparr>,
                  non_option]) in_order =
           Some (True,
                 \<lparr>data = Some
                    [\<lparr>option = \<lparr>code = 97, name = None, has_arg = ap_no, tag = 0\<rparr>,
                        argument = [], opt_string = ''-a''\<rparr>,
                     \<lparr>option = \<lparr>code = 98, name = None, has_arg = ap_no, tag = 0\<rparr>,
                        argument = [], opt_string = ''-b''\<rparr>,
                     \<lparr>option = \<lparr>code = 99, name = None, has_arg = ap_yes, tag = 0\<rparr>,
                        argument = ''VALUE'', opt_string = ''-c''\<rparr>],
                    data_size = 3, error = None, error_size = 0\<rparr>)"
    by code_simp
qed

theorem short_cluster_witness:
  "cnth ''-abcVALUE'' 3 \<noteq> NUL \<and> cnth ''-abcVALUE'' 4 \<noteq> NUL \<and> cnth ''-ab'' 3 = NUL \<and>
   short_loop no_failure ap_empty ''-abcVALUE'' None
     [\<lparr>code = 97, name = None, has_arg = ap_no, tag = 0\<rparr>,
      \<lparr>code = 98, name = None, has_arg = ap_no, tag = 0\<rparr>,
      \<lparr>code = 99, name = None, has_arg = ap_yes, tag = 0\<rparr>, non_option] 1 3 =
     (True, no_failure,
      append_record ap_empty
        (short_record \<lparr>code = 99, name = None, has_arg = ap_yes, tag = 0\<rparr> ''VALUE''), 2) \<and>
   short_loop no_failure ap_empty ''-abcVALUE'' None
     [\<lparr>code = 97, name = None, has_arg = ap_no, tag = 0\<rparr>,
      \<lparr>code = 98, name = None, has_arg = ap_no, tag = 0\<rparr>,
      \<lparr>code = 99, name = None, has_arg = ap_yes, tag = 0\<rparr>, non_option] 1 2 =
   short_loop no_failure
     (append_record ap_empty
        (short_record \<lparr>code = 98, name = None, has_arg = ap_no, tag = 0\<rparr> []))
     ''-abcVALUE'' None
     [\<lparr>code = 97, name = None, has_arg = ap_no, tag = 0\<rparr>,
      \<lparr>code = 98, name = None, has_arg = ap_no, tag = 0\<rparr>,
      \<lparr>code = 99, name = None, has_arg = ap_yes, tag = 0\<rparr>, non_option] 1 3 \<and>
   short_loop no_failure ap_empty ''-ab'' None
     [\<lparr>code = 97, name = None, has_arg = ap_no, tag = 0\<rparr>,
      \<lparr>code = 98, name = None, has_arg = ap_no, tag = 0\<rparr>,
      \<lparr>code = 99, name = None, has_arg = ap_yes, tag = 0\<rparr>, non_option] 1 2 =
     (True, no_failure,
      append_record ap_empty
        (short_record \<lparr>code = 98, name = None, has_arg = ap_no, tag = 0\<rparr> []), 2)"
proof -
  let ?t = "[\<lparr>code = 97, name = None, has_arg = ap_no, tag = 0\<rparr>,
             \<lparr>code = 98, name = None, has_arg = ap_no, tag = 0\<rparr>,
             \<lparr>code = 99, name = None, has_arg = ap_yes, tag = 0\<rparr>, non_option]"
  have c: "cnth ''-abcVALUE'' 3 = CHR ''c''" "cnth ''-abcVALUE'' 2 = CHR ''b''"
    "cnth ''-abcVALUE'' 4 \<noteq> NUL" "cnth ''-ab'' 2 = CHR ''b''" "cnth ''-ab'' 3 = NUL"
    by (simp_all add: cnth_def NUL_def)
  have f: "short_find ?t (CHR ''c'') 0 = int 2" "short_find ?t (CHR ''b'') 0 = int 1"
    by code_simp+
  have n: "CHR ''c'' \<noteq> NUL" "CHR ''b'' \<noteq> NUL"
    by (simp_all add: NUL_def)
  have 1: "short_loop no_failure ap_empty ''-abcVALUE'' None ?t 1 3 =
     (True, no_failure,
      append_record ap_empty
        (short_record \<lparr>code = 99, name = None, has_arg = ap_yes, tag = 0\<rparr> ''VALUE''), 2)"
    using short_cluster [where cind = 3 and opt = "''-abcVALUE''" and options = ?t and k = 2
        and ap = ap_empty and arg = None and argind = 1] c f n
    by simp
  have 2: "short_loop no_failure ap_empty ''-abcVALUE'' None ?t 1 2 =
     short_loop no_failure
       (append_record ap_empty
          (short_record \<lparr>code = 98, name = None, has_arg = ap_no, tag = 0\<rparr> []))
       ''-abcVALUE'' None ?t 1 3"
    using short_cluster [where cind = 2 and opt = "''-abcVALUE''" and options = ?t and k = 1
        and ap = ap_empty and arg = None and argind = 1] c f n
    by simp
  have 3: "short_loop no_failure ap_empty ''-ab'' None ?t 1 2 =
     (True, no_failure,
      append_record ap_empty
        (short_record \<lparr>code = 98, name = None, has_arg = ap_no, tag = 0\<rparr> []), 2)"
    using short_cluster [where cind = 2 and opt = "''-ab''" and options = ?t and k = 1
        and ap = ap_empty and arg = None and argind = 1] c f n
    by simp
  from 1 2 3 c n show ?thesis by simp
qed

text \<open>
  C7. Missing arguments. Let entry \<open>k\<close> require an argument and no error be recorded yet.
  Long form: if the lookup selects entry \<open>k\<close> for the token \<open>--n=\<close> (empty value), or for the
  token \<open>--n\<close> when there is no next token or the next token is empty, the parse stores no
  record and composes \<open>option '--<name>' requires an argument\<close>. Short form: if the last
  character of a cluster is the code of entry \<open>k\<close> and there is no next token or the next
  token is empty, the parse composes \<open>option requires an argument -- <char>\<close>. The five
  cases are evaluated on whole command lines.
\<close>

theorem missing_argument:
  assumes ap: "error ap = None" "error_size ap = 0"
    and req: "has_arg (options ! k) = ap_yes"
  shows "(option_name n \<and>
          long_scan options (long_token n v) (length n) 0 (-1) False = (int k, exact, ambig) \<and>
          (exact \<or> \<not> ambig) \<and>
          (v = Some [] \<or> v = None \<and> (arg = None \<or> arg = Some [])) \<longrightarrow>
            parse_long_option no_failure ap (long_token n v) arg options argind =
              (True, no_failure,
               with_error ap (''option '' @ [CHR 0x27] @ ''--'' @ name_of (options ! k) @
                              [CHR 0x27] @ '' requires an argument''),
               argind + 1)) \<and>
         (0 < cind \<and> cnth opt cind \<noteq> NUL \<and> short_find options (cnth opt cind) 0 = int k \<and>
          cnth opt (cind + 1) = NUL \<and> (arg = None \<or> arg = Some []) \<longrightarrow>
            short_loop no_failure ap opt arg options argind cind =
              (True, no_failure,
               with_error ap (''option requires an argument -- '' @ [cnth opt cind]),
               argind + 1)) \<and>
         ap_init no_failure (Some [prog, ''--foo=''])
           (Some [\<lparr>code = 99, name = Some ''foo'', has_arg = ap_yes, tag = 0\<rparr>, non_option])
           in_order =
           Some (True, with_error ap_empty
                   (''option '' @ [CHR 0x27] @ ''--foo'' @ [CHR 0x27] @
                    '' requires an argument'')) \<and>
         ap_init no_failure (Some [prog, ''--foo''])
           (Some [\<lparr>code = 99, name = Some ''foo'', has_arg = ap_yes, tag = 0\<rparr>, non_option])
           in_order =
           Some (True, with_error ap_empty
                   (''option '' @ [CHR 0x27] @ ''--foo'' @ [CHR 0x27] @
                    '' requires an argument'')) \<and>
         ap_init no_failure (Some [prog, ''--foo'', ''''])
           (Some [\<lparr>code = 99, name = Some ''foo'', has_arg = ap_yes, tag = 0\<rparr>, non_option])
           in_order =
           Some (True, with_error ap_empty
                   (''option '' @ [CHR 0x27] @ ''--foo'' @ [CHR 0x27] @
                    '' requires an argument'')) \<and>
         ap_init no_failure (Some [prog, ''-c''])
           (Some [\<lparr>code = 99, name = Some ''foo'', has_arg = ap_yes, tag = 0\<rparr>, non_option])
           in_order =
           Some (True, with_error ap_empty ''option requires an argument -- c'') \<and>
         ap_init no_failure (Some [prog, ''-c'', ''''])
           (Some [\<lparr>code = 99, name = Some ''foo'', has_arg = ap_yes, tag = 0\<rparr>, non_option])
           in_order =
           Some (True, with_error ap_empty ''option requires an argument -- c'')"
proof (intro conjI impI)
  assume a: "option_name n \<and>
          long_scan options (long_token n v) (length n) 0 (-1) False = (int k, exact, ambig) \<and>
          (exact \<or> \<not> ambig) \<and>
          (v = Some [] \<or> v = None \<and> (arg = None \<or> arg = Some []))"
  then have p: "parse_long_option no_failure ap (long_token n v) arg options argind =
           long_finish no_failure ap (long_token n v) (length n) arg (options ! k) argind"
    by (auto simp: parse_long_option_def name_len_token)
  from a consider "v = Some []" | "v = None" "arg = None \<or> arg = Some []" by blast
  then have "long_finish no_failure ap (long_token n v) (length n) arg (options ! k) argind =
     (case add_errors no_failure ap (''option '' @ [CHR 0x27] @ ''--'') (name_of (options ! k))
             ([CHR 0x27] @ '' requires an argument'')
        of (h', ap') \<Rightarrow> (True, h', ap', argind + 1))"
  proof cases
    case 1
    with req show ?thesis by (simp only: long_missing_eq)
  next
    case 2
    with req show ?thesis by (simp only: long_missing_next)
  qed
  with p ap show "parse_long_option no_failure ap (long_token n v) arg options argind =
              (True, no_failure,
               with_error ap (''option '' @ [CHR 0x27] @ ''--'' @ name_of (options ! k) @
                              [CHR 0x27] @ '' requires an argument''),
               argind + 1)"
    by (simp add: add_errors_no_failure)
next
  assume "0 < cind \<and> cnth opt cind \<noteq> NUL \<and> short_find options (cnth opt cind) 0 = int k \<and>
          cnth opt (cind + 1) = NUL \<and> (arg = None \<or> arg = Some [])"
  with req have "short_loop no_failure ap opt arg options argind cind =
     (case add_errors2 no_failure ap ''option requires an argument -- '' [cnth opt cind]
        of (h', ap') \<Rightarrow> (True, h', ap', argind + 1))"
    by (intro short_missing) simp_all
  with ap show "short_loop no_failure ap opt arg options argind cind =
              (True, no_failure,
               with_error ap (''option requires an argument -- '' @ [cnth opt cind]),
               argind + 1)"
    by (simp add: add_errors2_no_failure)
qed code_simp+

theorem missing_argument_witness:
  "error ap_empty = None \<and> error_size ap_empty = 0 \<and> option_name ''foo'' \<and>
   parse_long_option no_failure ap_empty (long_token ''foo'' (Some [])) (Some [])
     [\<lparr>code = 99, name = Some ''foo'', has_arg = ap_yes, tag = 0\<rparr>, non_option] 1 =
     (True, no_failure,
      with_error ap_empty (''option '' @ [CHR 0x27] @ ''--foo'' @ [CHR 0x27] @
                           '' requires an argument''), 2) \<and>
   short_loop no_failure ap_empty ''-c'' (Some [])
     [\<lparr>code = 99, name = Some ''foo'', has_arg = ap_yes, tag = 0\<rparr>, non_option] 1 1 =
     (True, no_failure, with_error ap_empty ''option requires an argument -- c'', 2)"
proof -
  let ?t = "[\<lparr>code = 99, name = Some ''foo'', has_arg = ap_yes, tag = 0\<rparr>, non_option]"
  have h1: "error ap_empty = None" and h2: "error_size ap_empty = 0"
    by (simp_all add: ap_empty_def)
  have h3: "has_arg (?t ! 0) = ap_yes"
    by simp
  have h4: "option_name ''foo''"
    by (simp add: option_name_def NUL_def)
  have h5: "long_scan ?t (long_token ''foo'' (Some [])) (length ''foo'') 0 (-1) False =
              (int 0, True, False)"
    by code_simp
  have h6: "cnth ''-c'' 1 \<noteq> NUL" "short_find ?t (cnth ''-c'' 1) 0 = int 0"
    "cnth ''-c'' (1 + 1) = NUL"
    by (simp add: NUL_def cnth_def, code_simp, simp add: cnth_def)
  note m = missing_argument [OF h1 h2 h3, where n = "''foo''" and v = "Some []"
      and exact = True and ambig = False and arg = "Some []" and cind = 1 and opt = "''-c''"
      and argind = 1]
  from m h4 h5 have "parse_long_option no_failure ap_empty (long_token ''foo'' (Some []))
      (Some []) ?t 1 =
     (True, no_failure,
      with_error ap_empty (''option '' @ [CHR 0x27] @ ''--'' @ name_of (?t ! 0) @
                              [CHR 0x27] @ '' requires an argument''), 1 + 1)"
    by blast
  moreover from m h6 have "short_loop no_failure ap_empty ''-c'' (Some []) ?t 1 1 =
     (True, no_failure,
      with_error ap_empty (''option requires an argument -- '' @ [cnth ''-c'' 1]), 1 + 1)"
    by blast
  ultimately show ?thesis
    using h1 h2 h4 by (simp add: name_of_def cnth_def)
qed

lemma wf_push:
  "wf_parser ap \<Longrightarrow> push_back_record h ap ent long_opt a = (r, h', ap') \<Longrightarrow> wf_parser ap'"
  by (auto simp: push_back_record_def wf_parser_def records_def Let_def ap_resize_buffer_def
           split: if_splits)

lemma wf_add_error:
  "wf_parser ap \<Longrightarrow> add_error h ap msg = (r, h', ap') \<Longrightarrow> wf_parser ap'"
  by (auto simp: add_error_def wf_parser_def records_def ap_resize_buffer_def
           split: if_splits option.splits)

lemma wf_add_errors:
  assumes "wf_parser ap" "add_errors h ap m1 m2 m3 = (h', ap')"
  shows "wf_parser ap'"
proof -
  obtain r1 h1 ap1 where 1: "add_error h ap m1 = (r1, h1, ap1)" by (metis prod_cases3)
  obtain r2 h2 ap2 where 2: "add_error h1 ap1 m2 = (r2, h2, ap2)" by (metis prod_cases3)
  obtain r3 h3 ap3 where 3: "add_error h2 ap2 m3 = (r3, h3, ap3)" by (metis prod_cases3)
  from assms(2) 1 2 3 have "ap' = ap3" by (simp add: add_errors_def)
  with wf_add_error [OF wf_add_error [OF wf_add_error [OF assms(1) 1] 2] 3] show ?thesis
    by simp
qed

lemma wf_add_errors2:
  assumes "wf_parser ap" "add_errors2 h ap m1 m2 = (h', ap')"
  shows "wf_parser ap'"
proof -
  obtain r1 h1 ap1 where 1: "add_error h ap m1 = (r1, h1, ap1)" by (metis prod_cases3)
  obtain r2 h2 ap2 where 2: "add_error h1 ap1 m2 = (r2, h2, ap2)" by (metis prod_cases3)
  from assms(2) 1 2 have "ap' = ap2" by (simp add: add_errors2_def)
  with wf_add_error [OF wf_add_error [OF assms(1) 1] 2] show ?thesis
    by simp
qed

lemma wf_long_finish:
  "wf_parser ap \<Longrightarrow> long_finish h ap opt len arg ent argind = (r, h', ap', argind') \<Longrightarrow>
   wf_parser ap'"
  unfolding long_finish_def Let_def
  by (auto split: if_splits prod.splits option.splits dest: wf_add_errors wf_push)

lemma wf_parse_long:
  "wf_parser ap \<Longrightarrow> parse_long_option h ap opt arg options argind = (r, h', ap', argind') \<Longrightarrow>
   wf_parser ap'"
  unfolding parse_long_option_def Let_def
  by (auto split: if_splits prod.splits dest: wf_add_errors wf_long_finish)

lemma wf_short_body:
  assumes "wf_parser ap"
  shows "short_body h ap opt arg options argind cind = Inl (r, h', ap', argind') \<Longrightarrow>
           wf_parser ap'"
    and "short_body h ap opt arg options argind cind = Inr (h', ap', argind', cind') \<Longrightarrow>
           wf_parser ap'"
proof -
  define c where "c = cnth opt cind"
  define index where "index = (if c \<noteq> NUL then short_find options c 0 else -1)"
  define ent where "ent = options ! nat index"
  define fin where "fin = (cnth opt (cind + 1) = NUL)"
  define cind1 where "cind1 = (if fin then 0 else cind + 1)"
  define argind1 where "argind1 = (if fin then argind + 1 else argind)"
  note folded = c_def [symmetric] index_def [symmetric] ent_def [symmetric] fin_def [symmetric]
    cind1_def [symmetric] argind1_def [symmetric]
  show "short_body h ap opt arg options argind cind = Inl (r, h', ap', argind') \<Longrightarrow>
           wf_parser ap'"
    unfolding short_body_def Let_def folded
    using assms
    by (auto split: if_splits prod.splits option.splits dest: wf_add_errors2 wf_push)
  show "short_body h ap opt arg options argind cind = Inr (h', ap', argind', cind') \<Longrightarrow>
           wf_parser ap'"
    unfolding short_body_def Let_def folded
    using assms
    by (auto split: if_splits prod.splits option.splits dest: wf_add_errors2 wf_push)
qed

lemma wf_short_loop:
  "wf_parser ap \<Longrightarrow> short_loop h ap opt arg options argind cind = (r, h', ap', argind') \<Longrightarrow>
   wf_parser ap'"
proof (induction h ap opt arg options argind cind rule: short_loop.induct)
  case (1 h ap opt arg options argind cind)
  show ?case
  proof (cases "cind > 0")
    case False
    with 1(2,3) show ?thesis
      by (subst (asm) short_loop.simps) simp
  next
    case True
    show ?thesis
    proof (cases "short_body h ap opt arg options argind cind")
      case (Inl res)
      with True 1(3) have "short_body h ap opt arg options argind cind = Inl (r, h', ap', argind')"
        by (subst (asm) short_loop.simps) simp
      with 1(2) show ?thesis by (rule wf_short_body(1))
    next
      case (Inr st)
      then obtain h1 ap1 a1 c1 where
        st: "short_body h ap opt arg options argind cind = Inr (h1, ap1, a1, c1)"
        by (cases st) auto
      with True 1(3) have "short_loop h1 ap1 opt arg options a1 c1 = (r, h', ap', argind')"
        by (subst (asm) short_loop.simps) simp
      moreover from 1(2) st have "wf_parser ap1" by (rule wf_short_body(2))
      ultimately show ?thesis
        using 1(1) [OF True st refl refl refl] by simp
    qed
  qed
qed

lemma wf_scan_body:
  assumes "wf_parser ap"
  shows "scan_body argv options in_order h ap non_options argind = Inl ap' \<Longrightarrow> wf_parser ap'"
    and "scan_body argv options in_order h ap non_options argind =
           Inr (brk, h', ap', non_options', argind') \<Longrightarrow> wf_parser ap'"
  using assms
  unfolding scan_body_def Let_def parse_short_option_def
  by (auto split: if_splits prod.splits dest: wf_parse_long wf_short_loop wf_push)

lemma wf_scan_aux:
  assumes "ap_scan argv options in_order h ap non_options argind = Some res"
  shows "wf_parser ap \<longrightarrow>
     (case res of Inl ap' \<Rightarrow> wf_parser ap'
      | Inr (h', ap', non_options', argind') \<Rightarrow> wf_parser ap')"
proof -
  let ?P = "\<lambda>(argv :: string list) (options :: ap_Option list) (in_order :: bool)
              (h :: allocator) ap (non_options :: string list) (argind :: nat) res.
              wf_parser ap \<longrightarrow>
                (case res of Inl ap' \<Rightarrow> wf_parser ap'
                 | Inr (h' :: allocator, ap', non_options' :: string list, argind' :: nat) \<Rightarrow>
                     wf_parser ap')"
  show ?thesis
  proof (rule ap_scan.raw_induct [where P = ?P, OF _ assms], goal_cases)
    case (1 f argv options in_order h ap non_options argind res)
    show ?case
    proof
      assume w0: "wf_parser ap"
      show "case res of Inl ap' \<Rightarrow> wf_parser ap'
            | Inr (h', ap', non_options', argind') \<Rightarrow> wf_parser ap'"
      proof (cases "argind < length argv")
        case False
        with 1(2) w0 show ?thesis by auto
      next
        case True
        show ?thesis
        proof (cases "scan_body argv options in_order h ap non_options argind")
          case (Inl ap')
          with True 1(2) wf_scan_body(1) [OF w0 Inl] show ?thesis by auto
        next
          case (Inr st)
          then obtain brk h1 ap1 n1 a1 where
            st: "scan_body argv options in_order h ap non_options argind =
                   Inr (brk, h1, ap1, n1, a1)"
            by (cases st) auto
          from wf_scan_body(2) [OF w0 st] have w: "wf_parser ap1" .
          show ?thesis
          proof (cases brk)
            case True
            with \<open>argind < length argv\<close> st 1(2) w show ?thesis by auto
          next
            case False
            with \<open>argind < length argv\<close> st 1(2)
            have "f argv options in_order h1 ap1 n1 a1 = Some res"
              by simp
            from 1(1) [OF this] w show ?thesis by simp
          qed
        qed
      qed
    qed
  qed
qed

lemma wf_push_operands:
  "wf_parser ap \<Longrightarrow>
   (case push_operands h ap xs of Inl ap' \<Rightarrow> wf_parser ap' | Inr (h', ap') \<Rightarrow> wf_parser ap')"
proof (induction xs arbitrary: h ap)
  case Nil
  then show ?case by simp
next
  case (Cons x xs)
  obtain r1 h1 ap1 where p: "push_back_record h ap non_option False x = (r1, h1, ap1)"
    by (metis prod_cases3)
  from wf_push [OF Cons.prems p] have w: "wf_parser ap1" .
  from Cons.IH [OF w, of h1] w show ?case
    by (simp add: p)
qed

lemma wf_free_loop:
  assumes "wf_parser ap" "0 \<le> i"
  shows "\<exists>freed'. free_loop ap i freed = Some freed'"
  using assms(2)
proof (induction "nat (data_size ap - i)" arbitrary: i freed)
  case 0
  then show ?case by (subst free_loop.simps) simp
next
  case (Suc d)
  then have lt: "i < data_size ap" by simp
  with assms(1) Suc.prems obtain r where r: "data_at ap i = Some r"
    by (auto simp: wf_parser_def data_at_def records_def nat_less_iff split: option.splits)
  from Suc.hyps(2) have "d = nat (data_size ap - (i + 1))" by simp
  from Suc.hyps(1) [OF this] Suc.prems lt r show ?case
    by (subst free_loop.simps) simp
qed

lemma wf_free_data:
  assumes "wf_parser ap"
  shows "\<exists>freed. free_data ap = Some (freed, ap\<lparr>data := None, data_size := 0\<rparr>)"
proof -
  from wf_free_loop [OF assms, of 0 "[]"] obtain freed where
    "free_loop ap 0 [] = Some freed" by auto
  then show ?thesis
    by (cases "data ap") (simp_all add: free_data_def)
qed

lemma wf_empty: "wf_parser ap_empty"
  by (simp add: wf_parser_def ap_empty_def records_def)

lemma wf_finish:
  assumes "wf_parser ap" "ap_finish h ap non_options rest = Some (r, ap')"
  shows "wf_parser ap'"
proof (cases "error ap = None")
  case False
  from wf_free_data [OF assms(1)] obtain freed where
    "free_data ap = Some (freed, ap\<lparr>data := None, data_size := 0\<rparr>)" by auto
  with False assms show ?thesis
    by (auto simp: ap_finish_def wf_parser_def records_def)
next
  case True
  show ?thesis
  proof (cases "push_operands h ap non_options")
    case (Inl a)
    with wf_push_operands [OF assms(1), of h non_options] True assms(2) show ?thesis
      by (simp add: ap_finish_def)
  next
    case (Inr st)
    then obtain h2 ap2 where 2: "push_operands h ap non_options = Inr (h2, ap2)"
      by (cases st) auto
    with wf_push_operands [OF assms(1), of h non_options] have w: "wf_parser ap2" by simp
    from wf_push_operands [OF w, of h2 rest] True assms(2) 2 show ?thesis
      by (auto simp: ap_finish_def split: sum.splits)
  qed
qed

lemma wf_init:
  assumes "ap_init h argv options in_order = Some (r, ap)"
  shows "wf_parser ap"
proof (cases "\<exists>av opts. argv = Some av \<and> options = Some opts \<and> \<not> length av < 2")
  case False
  with assms have "ap = ap_empty"
    by (auto simp: ap_init_def split: option.splits if_splits)
  then show ?thesis by (simp add: wf_empty)
next
  case True
  then obtain av opts where a: "argv = Some av" "options = Some opts" "\<not> length av < 2"
    by auto
  with assms obtain res where s: "ap_scan av opts in_order h ap_empty [] 1 = Some res"
    by (auto simp: ap_init_def split: option.splits)
  from wf_scan_aux [OF s] wf_empty
  have w: "case res of Inl ap' \<Rightarrow> wf_parser ap'
          | Inr (h', ap', non_options', argind') \<Rightarrow> wf_parser ap'"
    by simp
  show ?thesis
  proof (cases res)
    case (Inl ap')
    with assms a s w show ?thesis by (simp add: ap_init_def)
  next
    case (Inr st)
    then obtain h1 ap1 n1 a1 where st: "res = Inr (h1, ap1, n1, a1)" by (cases st) auto
    with assms a s have "ap_finish h1 ap1 n1 (drop a1 av) = Some (r, ap)"
      by (simp add: ap_init_def)
    moreover from w st have "wf_parser ap1" by simp
    ultimately show ?thesis by (rule wf_finish [rotated])
  qed
qed


lemma free_loop_wf:
  assumes "wf_parser ap" "0 \<le> i"
  shows "free_loop ap i freed =
           Some (freed @ concat (map (\<lambda>r. [Chars (argument r), Chars (opt_string r)])
                                   (drop (nat i) (records ap))))"
  using assms(2)
proof (induction "nat (data_size ap - i)" arbitrary: i freed)
  case 0
  with assms(1) have "length (records ap) \<le> nat i"
    by (simp add: wf_parser_def)
  with 0 show ?case
    by (subst free_loop.simps) auto
next
  case (Suc d)
  then have lt: "i < data_size ap" by simp
  with assms(1) Suc.prems have r: "data_at ap i = Some (records ap ! nat i)"
    and l: "nat i < length (records ap)"
    by (auto simp: wf_parser_def data_at_def records_def nat_less_iff split: option.splits)
  from Suc.hyps(2) have "d = nat (data_size ap - (i + 1))" by simp
  from Suc.hyps(1) [OF this] Suc.prems
  have ih: "free_loop ap (i + 1) freed' =
     Some (freed' @ concat (map (\<lambda>r. [Chars (argument r), Chars (opt_string r)])
                                   (drop (Suc (nat i)) (records ap))))" for freed'
    by (simp add: nat_add_distrib)
  from l have "drop (nat i) (records ap) = records ap ! nat i # drop (Suc (nat i)) (records ap)"
    by (simp add: Cons_nth_drop_Suc)
  with lt r ih show ?case
    by (subst free_loop.simps) simp
qed

text \<open>The blocks a parser state owns: the two strings of every record, the array, the message.\<close>

lemma ap_free_wf:
  assumes "wf_parser ap"
  shows "ap_free ap =
     Some (concat (map (\<lambda>r. [Chars (argument r), Chars (opt_string r)]) (records ap)) @
           (case data ap of None \<Rightarrow> [] | Some rs \<Rightarrow> [Array rs]) @
           (case error ap of None \<Rightarrow> [] | Some e \<Rightarrow> [Chars e]),
           ap_empty)"
  using free_loop_wf [OF assms, of 0 "[]"]
  by (cases "data ap"; cases "error ap")
     (simp_all add: ap_free_def free_data_def ap_empty_def)

lemma ap_free_empty: "ap_free ap_empty = Some ([], ap_empty)"
  using ap_free_wf [OF wf_empty] by (simp add: ap_empty_def records_def)



text \<open>
  C9. Teardown. For every state \<^verbatim>\<open>ap_init\<close> leaves, the first \<^verbatim>\<open>ap_free\<close> reads inside the
  array only, hands to \<^verbatim>\<open>free\<close> the two strings of every record, the array and the message,
  once each, and leaves the record count 0 and the error absent. A second \<^verbatim>\<open>ap_free\<close> hands
  nothing to \<^verbatim>\<open>free\<close> and leaves the state as it is.
\<close>

theorem release_idempotent:
  assumes "ap_init h argv options in_order = Some (r, ap)"
  shows "\<exists>freed ap'.
           ap_free ap = Some (freed, ap') \<and>
           freed = concat (map (\<lambda>r. [Chars (argument r), Chars (opt_string r)]) (records ap)) @
                   (case data ap of None \<Rightarrow> [] | Some rs \<Rightarrow> [Array rs]) @
                   (case error ap of None \<Rightarrow> [] | Some e \<Rightarrow> [Chars e]) \<and>
           ap_arguments ap' = 0 \<and> ap_error ap' = None \<and>
           data ap' = None \<and> error_size ap' = 0 \<and>
           ap_free ap' = Some ([], ap')"
proof -
  from assms have w: "wf_parser ap" by (rule wf_init)
  show ?thesis
    by (simp add: ap_free_wf [OF w] ap_free_empty)
       (simp add: ap_arguments_def ap_error_def ap_empty_def)
qed

theorem release_idempotent_witness:
  "ap_init no_failure (Some [''prog'', ''-v'', ''file''])
     (Some [\<lparr>code = 118, name = None, has_arg = ap_no, tag = 0\<rparr>, non_option]) False =
     Some (True, \<lparr>data = Some [short_record \<lparr>code = 118, name = None, has_arg = ap_no, tag = 0\<rparr> [],
                                operand ''file''],
                  data_size = 2, error = None, error_size = 0\<rparr>) \<and>
   ap_free \<lparr>data = Some [short_record \<lparr>code = 118, name = None, has_arg = ap_no, tag = 0\<rparr> [],
                         operand ''file''],
           data_size = 2, error = None, error_size = 0\<rparr> =
     Some ([Chars [], Chars ''-v'', Chars ''file'', Chars ''-'',
            Array [short_record \<lparr>code = 118, name = None, has_arg = ap_no, tag = 0\<rparr> [],
                   operand ''file'']],
           ap_empty) \<and>
   ap_free ap_empty = Some ([], ap_empty)"
proof -
  let ?t = "[\<lparr>code = 118, name = None, has_arg = ap_no, tag = 0\<rparr>, non_option]"
  let ?ap = "\<lparr>data = Some [short_record \<lparr>code = 118, name = None, has_arg = ap_no, tag = 0\<rparr> [],
                            operand ''file''],
              data_size = 2, error = None, error_size = 0\<rparr>"
  have h1: "ap_init no_failure (Some [''prog'', ''-v'', ''file'']) (Some ?t) False =
              Some (True, ?ap)"
    by code_simp
  have c: "char_of (118 :: int) = CHR ''v''"
    by code_simp
  from release_idempotent [OF h1] obtain freed ap' where
    f: "ap_free ?ap = Some (freed, ap')"
      "freed = concat (map (\<lambda>r. [Chars (argument r), Chars (opt_string r)]) (records ?ap)) @
                   (case data ?ap of None \<Rightarrow> [] | Some rs \<Rightarrow> [Array rs]) @
                   (case error ?ap of None \<Rightarrow> [] | Some e \<Rightarrow> [Chars e])"
      "ap_arguments ap' = 0" "ap_error ap' = None" "data ap' = None" "error_size ap' = 0"
      "ap_free ap' = Some ([], ap')"
    by blast
  from f(3-6) have e: "ap' = ap_empty"
    by (cases ap') (simp add: ap_arguments_def ap_error_def ap_empty_def)
  from f(2) have "freed = [Chars [], Chars ''-v'', Chars ''file'', Chars ''-'',
            Array [short_record \<lparr>code = 118, name = None, has_arg = ap_no, tag = 0\<rparr> [],
                   operand ''file'']]"
    by (simp add: records_def short_record_def operand_def short_string_def c)
  with f(1,7) e h1 show ?thesis by simp
qed

text \<open>
  C10. Accessors outside the range. For every parser state and every index \<open>i\<close> that is
  negative or not below the record count, the four accessors return their defaults without
  reading the array (the result is not an invalid read): code 0, the empty string twice, and
  the null pointer.
\<close>

theorem accessors_out_of_range:
  assumes "i < 0 \<or> ap_arguments ap \<le> i"
  shows "ap_code ap i = Some 0 \<and> ap_argument ap i = Some [] \<and>
         ap_opt_string ap i = Some [] \<and> ap_option ap i = Some None"
  using assms
  by (auto simp: ap_code_def ap_argument_def ap_opt_string_def ap_option_def)

theorem accessors_out_of_range_witness:
  "ap_arguments \<lparr>data = Some [operand ''file''], data_size = 1, error = None, error_size = 0\<rparr>
     \<le> 1 \<and>
   ap_code \<lparr>data = Some [operand ''file''], data_size = 1, error = None, error_size = 0\<rparr> 1
     = Some 0 \<and>
   ap_argument \<lparr>data = Some [operand ''file''], data_size = 1, error = None, error_size = 0\<rparr> 1
     = Some [] \<and>
   ap_opt_string \<lparr>data = Some [operand ''file''], data_size = 1, error = None, error_size = 0\<rparr> 1
     = Some [] \<and>
   ap_option \<lparr>data = Some [operand ''file''], data_size = 1, error = None, error_size = 0\<rparr> 1
     = Some None \<and>
   ap_code \<lparr>data = Some [operand ''file''], data_size = 1, error = None, error_size = 0\<rparr> (-1)
     = Some 0 \<and>
   ap_option \<lparr>data = Some [operand ''file''], data_size = 1, error = None, error_size = 0\<rparr> (-1)
     = Some None"
proof -
  let ?ap = "\<lparr>data = Some [operand ''file''], data_size = 1, error = None, error_size = 0\<rparr>"
  have h: "ap_arguments ?ap \<le> 1"
    by (simp add: ap_arguments_def)
  then have h1: "(1::int) < 0 \<or> ap_arguments ?ap \<le> 1" by simp
  have h2: "(-1::int) < 0 \<or> ap_arguments ?ap \<le> -1" by simp
  from accessors_out_of_range [OF h1] accessors_out_of_range [OF h2] h show ?thesis
    by simp
qed

lemma append_records_Nil [simp]: "append_records ap [] = ap"
  by (simp add: append_records_def)


lemma records_append_records [simp]: "records (append_records ap rs) = records ap @ rs"
  by (simp add: append_records_def records_def split: option.splits)


lemma error_append_records [simp]:
  "error (append_records ap rs) = error ap" "error_size (append_records ap rs) = error_size ap"
  by (simp_all add: append_records_def)

lemma error_with_error [simp]:
  "error (with_error ap msg) = Some msg" "records (with_error ap msg) = records ap"
  by (simp_all add: with_error_def records_def)















lemma operand_args_append [simp]: "operand_args (xs @ ys) = operand_args xs @ operand_args ys"
  by (simp add: operand_args_def)

lemma operand_args_operand [simp]: "operand_args (operand tok # rs) = tok # operand_args rs"
  by (simp add: operand_args_def operand_def)

lemma operand_args_map_operand [simp]: "operand_args (map operand ops) = ops"
  by (induction ops) (simp_all add: operand_args_def operand_def)






































end
